theory Spec2Isabelle
  imports Main "HOL-Library.Sublist"
begin

section \<open>Front-end data model (frontend/src/lib/types.ts)\<close>

text \<open>
  The TypeScript interfaces become records. Record fields are global constants in HOL, so
  a field that several interfaces share (\<open>id\<close>, \<open>content\<close>, \<open>timestamp\<close>, ...) carries the
  interface as a prefix: \<open>msg_id\<close> is \<open>ChatMessage.id\<close>, \<open>art_version\<close> is
  \<open>Artifact.version\<close>. A \<open>Date\<close> is the number of milliseconds it holds, a JavaScript
  \<open>number\<close> that the code only copies and compares is an \<open>int\<close>.
\<close>

datatype Role =
  R_user | R_assistant | R_system | R_researcher | R_storywriter | R_visualizer
  | R_planner | R_data_analyst | R_coordinator | R_reviewer

text \<open>
  A content value as the store sees it at run time: \<open>appendMessageContent\<close> asks
  \<open>typeof m.content === 'string'\<close>, and \<open>Artifact.content\<close> is declared \<open>any\<close>. A value that
  is not a string is kept by its JSON text.
\<close>

datatype content = Str string | NonStr string

record ChatMessage =
  msg_id :: string
  msg_role :: Role
  msg_content :: content
  msg_timestamp :: nat
  agentName :: "string option"
  isThinking :: "bool option"

datatype LogStatus = L_running | L_completed | L_failed | L_pending

record AgentLog =
  log_id :: string
  log_agent :: string
  log_step :: string
  log_status :: LogStatus
  log_timestamp :: nat
  log_details :: "string option"

datatype ArtifactType = A_report | A_outline | A_image | A_code | A_plan

record Artifact =
  art_id :: string
  art_type :: ArtifactType
  art_title :: string
  art_content :: content
  art_version :: int
  art_timestamp :: nat

text \<open>\<open>Partial<Artifact>\<close>: every property may be absent.\<close>

record PartialArtifact =
  upd_id :: "string option"
  upd_type :: "ArtifactType option"
  upd_title :: "string option"
  upd_content :: "content option"
  upd_version :: "int option"
  upd_timestamp :: "nat option"

record Session =
  ses_id :: string
  ses_title :: string
  ses_timestamp :: string
  ses_summary :: "string option"

record User =
  uid :: string
  email :: "string option"
  displayName :: "string option"
  photoURL :: "string option"

section \<open>The store (frontend/src/lib/store.ts)\<close>

record AppState =
  user :: "User option"
  currentSessionId :: "string option"
  sessions :: "Session list"
  messages :: "ChatMessage list"
  logs :: "AgentLog list"
  isStreaming :: bool
  artifacts :: "Artifact list"
  activeArtifactId :: "string option"
  isSidebarOpen :: bool
  messageInput :: string

definition initial_store :: AppState where
  "initial_store =
     \<lparr>user = None, currentSessionId = None, sessions = [], messages = [], logs = [],
      isStreaming = False, artifacts = [], activeArtifactId = None, isSidebarOpen = True,
      messageInput = ''''\<rparr>"

text \<open>
  The object spread \<open>{ ...a, ...updates }\<close>: a property present in \<open>updates\<close> overrides the
  one of \<open>a\<close>, an absent one leaves it. \<open>whole\<close> is an \<open>Artifact\<close> read as the right operand
  of a spread: all six properties are present.
\<close>

definition spread :: "Artifact \<Rightarrow> PartialArtifact \<Rightarrow> Artifact" where
  "spread a u =
     \<lparr>art_id = (case upd_id u of None \<Rightarrow> art_id a | Some v \<Rightarrow> v),
      art_type = (case upd_type u of None \<Rightarrow> art_type a | Some v \<Rightarrow> v),
      art_title = (case upd_title u of None \<Rightarrow> art_title a | Some v \<Rightarrow> v),
      art_content = (case upd_content u of None \<Rightarrow> art_content a | Some v \<Rightarrow> v),
      art_version = (case upd_version u of None \<Rightarrow> art_version a | Some v \<Rightarrow> v),
      art_timestamp = (case upd_timestamp u of None \<Rightarrow> art_timestamp a | Some v \<Rightarrow> v)\<rparr>"

definition whole :: "Artifact \<Rightarrow> PartialArtifact" where
  "whole b =
     \<lparr>upd_id = Some (art_id b), upd_type = Some (art_type b), upd_title = Some (art_title b),
      upd_content = Some (art_content b), upd_version = Some (art_version b),
      upd_timestamp = Some (art_timestamp b)\<rparr>"

definition setUser :: "User option \<Rightarrow> AppState \<Rightarrow> AppState" where
  "setUser u state = state\<lparr>user := u\<rparr>"

definition setCurrentSessionId :: "string option \<Rightarrow> AppState \<Rightarrow> AppState" where
  "setCurrentSessionId i state = state\<lparr>currentSessionId := i\<rparr>"

definition setSessions :: "Session list \<Rightarrow> AppState \<Rightarrow> AppState" where
  "setSessions ss state = state\<lparr>sessions := ss\<rparr>"

text \<open>
  \<open>find\<close> returns the first element with the id or \<open>undefined\<close>; an element is an object
  and therefore truthy, so \<open>if (exists)\<close> asks whether one was found.
\<close>

definition addMessage :: "ChatMessage \<Rightarrow> AppState \<Rightarrow> AppState" where
  "addMessage msg state =
     (case find (\<lambda>m. msg_id m = msg_id msg) (messages state) of
        Some exists \<Rightarrow> state
      | None \<Rightarrow> state\<lparr>messages := messages state @ [msg]\<rparr>)"

definition appendMessageContent :: "string \<Rightarrow> string \<Rightarrow> AppState \<Rightarrow> AppState" where
  "appendMessageContent i c state =
     state\<lparr>messages :=
       map (\<lambda>m. if msg_id m = i
                 then m\<lparr>msg_content := (case msg_content m of
                                            Str t \<Rightarrow> Str (t @ c)
                                          | NonStr v \<Rightarrow> NonStr v)\<rparr>
                 else m)
           (messages state)\<rparr>"

definition setMessages :: "ChatMessage list \<Rightarrow> AppState \<Rightarrow> AppState" where
  "setMessages ms state = state\<lparr>messages := ms\<rparr>"

definition addLog :: "AgentLog \<Rightarrow> AppState \<Rightarrow> AppState" where
  "addLog l state = state\<lparr>logs := logs state @ [l]\<rparr>"

definition clearLogs :: "AppState \<Rightarrow> AppState" where
  "clearLogs state = state\<lparr>logs := []\<rparr>"

definition setIsStreaming :: "bool \<Rightarrow> AppState \<Rightarrow> AppState" where
  "setIsStreaming v state = state\<lparr>isStreaming := v\<rparr>"

definition addArtifact :: "Artifact \<Rightarrow> AppState \<Rightarrow> AppState" where
  "addArtifact artifact state =
     (case find (\<lambda>a. art_id a = art_id artifact) (artifacts state) of
        Some exists \<Rightarrow>
          state\<lparr>artifacts :=
            map (\<lambda>a. if art_id a = art_id artifact then spread a (whole artifact) else a)
                (artifacts state)\<rparr>
      | None \<Rightarrow> state\<lparr>artifacts := artifacts state @ [artifact]\<rparr>)"

definition updateArtifact :: "string \<Rightarrow> PartialArtifact \<Rightarrow> AppState \<Rightarrow> AppState" where
  "updateArtifact i updates state =
     state\<lparr>artifacts :=
       map (\<lambda>a. if art_id a = i then spread a updates else a) (artifacts state)\<rparr>"

definition setActiveArtifactId :: "string option \<Rightarrow> AppState \<Rightarrow> AppState" where
  "setActiveArtifactId i state = state\<lparr>activeArtifactId := i\<rparr>"

definition toggleSidebar :: "AppState \<Rightarrow> AppState" where
  "toggleSidebar state = state\<lparr>isSidebarOpen := \<not> isSidebarOpen state\<rparr>"

definition setMessageInput :: "string \<Rightarrow> AppState \<Rightarrow> AppState" where
  "setMessageInput v state = state\<lparr>messageInput := v\<rparr>"

text \<open>
  The actions of the \<open>AppState\<close> interface as one datatype, so that a statement can range
  over every operation of the store.
\<close>

datatype store_op =
  SetUser "User option"
  | SetCurrentSessionId "string option"
  | SetSessions "Session list"
  | AddMessage ChatMessage
  | AppendMessageContent string string
  | SetMessages "ChatMessage list"
  | AddLog AgentLog
  | ClearLogs
  | SetIsStreaming bool
  | AddArtifact Artifact
  | UpdateArtifact string PartialArtifact
  | SetActiveArtifactId "string option"
  | ToggleSidebar
  | SetMessageInput string

fun apply_op :: "store_op \<Rightarrow> AppState \<Rightarrow> AppState" where
  "apply_op (SetUser u) = setUser u"
| "apply_op (SetCurrentSessionId i) = setCurrentSessionId i"
| "apply_op (SetSessions ss) = setSessions ss"
| "apply_op (AddMessage m) = addMessage m"
| "apply_op (AppendMessageContent i c) = appendMessageContent i c"
| "apply_op (SetMessages ms) = setMessages ms"
| "apply_op (AddLog l) = addLog l"
| "apply_op ClearLogs = clearLogs"
| "apply_op (SetIsStreaming v) = setIsStreaming v"
| "apply_op (AddArtifact a) = addArtifact a"
| "apply_op (UpdateArtifact i u) = updateArtifact i u"
| "apply_op (SetActiveArtifactId i) = setActiveArtifactId i"
| "apply_op ToggleSidebar = toggleSidebar"
| "apply_op (SetMessageInput v) = setMessageInput v"

text \<open>The artifact the preview pane shows for an id: the first one that carries it.\<close>

definition lookupArtifact :: "string \<Rightarrow> AppState \<Rightarrow> Artifact option" where
  "lookupArtifact i state = find (\<lambda>a. art_id a = i) (artifacts state)"

subsection \<open>Basic facts about the store\<close>

lemma spread_whole: "spread a (whole b) = b"
  by (simp add: spread_def whole_def)

lemma find_None_iff_id: "find (\<lambda>a. f a = i) xs = None \<longleftrightarrow> (\<forall>a \<in> set xs. f a \<noteq> i)"
  by (induction xs) auto

lemma find_replace_same:
  "find (\<lambda>a. f a = f b) xs = Some y \<Longrightarrow>
   find (\<lambda>a. f a = f b) (map (\<lambda>a. if f a = f b then b else a) xs) = Some b"
  by (induction xs) (auto split: if_splits)

lemma find_append_new:
  "find (\<lambda>a. f a = f b) xs = None \<Longrightarrow> find (\<lambda>a. f a = f b) (xs @ [b]) = Some b"
  by (induction xs) (auto split: if_splits)

lemma lookup_addArtifact: "lookupArtifact (art_id b) (addArtifact b s) = Some b"
proof (cases "find (\<lambda>a. art_id a = art_id b) (artifacts s)")
  case None
  then show ?thesis
    by (simp add: lookupArtifact_def addArtifact_def find_append_new)
next
  case (Some y)
  then show ?thesis
    by (simp add: lookupArtifact_def addArtifact_def spread_whole find_replace_same
        cong: if_cong)
qed

lemma addMessage_distinct:
  "distinct (map msg_id (messages s)) \<Longrightarrow> distinct (map msg_id (messages (addMessage m s)))"
  by (auto simp: addMessage_def find_None_iff_id split: option.splits)

lemma fold_addMessage_distinct:
  "distinct (map msg_id (messages s)) \<Longrightarrow>
   distinct (map msg_id (messages (fold addMessage ms s)))"
  by (induction ms arbitrary: s) (simp_all add: addMessage_distinct)

section \<open>The chat stream (frontend/src/lib/types.ts, lines 45-185: useChatStream)\<close>

subsection \<open>Values of the run-time environment\<close>

text \<open>What a \<open>throw\<close> carries: the errors the JavaScript run time raises, and \<open>new Error(msg)\<close>.\<close>

datatype js_error = ReferenceError string | SyntaxError | TypeError | Error string

text \<open>The decimal text of a number, as a template literal renders it.\<close>

fun digits :: "nat \<Rightarrow> string" where
  "digits n =
     (if n < 10 then [''0123456789'' ! n]
      else digits (n div 10) @ [''0123456789'' ! (n mod 10)])"

declare digits.simps [simp del]

text \<open>The event the library hands to \<open>onmessage\<close> (\<open>EventSourceMessage\<close>).\<close>

record EventSourceMessage =
  ev_id :: string
  ev_event :: string
  ev_data :: string

text \<open>
  \<open>JSON.parse(ev.data)\<close> throws a \<open>SyntaxError\<close> or returns a value. The handler only reads
  properties of that value: reading a property of \<open>null\<close> throws a \<open>TypeError\<close>. Any other
  value is seen through the properties the handler reads, at the types \<open>Artifact\<close> declares
  for them; \<open>agent_name\<close> and \<open>version\<close>, which the handler guards with \<open>||\<close>, may be
  absent. The parser is a parameter of the handler.
\<close>

record event_data =
  agent_name :: "string option"
  data_id :: string
  data_type :: ArtifactType
  data_title :: string
  data_content :: content
  data_version :: "int option"

datatype json = JNull | JValue event_data

type_synonym parser = "string \<Rightarrow> js_error + json"

text \<open>\<open>data.agent_name || "System"\<close> and \<open>data.version || 1\<close>: the empty string and 0 are falsy.\<close>

definition agent_or_System :: "string option \<Rightarrow> string" where
  "agent_or_System a =
     (case a of None \<Rightarrow> ''System'' | Some n \<Rightarrow> if n = [] then ''System'' else n)"

definition version_or_1 :: "int option \<Rightarrow> int" where
  "version_or_1 v = (case v of None \<Rightarrow> 1 | Some n \<Rightarrow> if n = 0 then 1 else n)"

subsection \<open>The handler \<open>onmessage\<close>\<close>

text \<open>
  The names \<open>useChatStream\<close> binds for the handler: the six it destructures from
  \<open>useStore()\<close> (lines 54-61), the imports and the constant of the module, and the
  parameters and locals of \<open>startStream\<close>. The handler adds its own parameter and
  locals. Evaluating an identifier that is bound nowhere throws a \<open>ReferenceError\<close>;
  \<open>appendMessageContent\<close> is an action of the store, not a global of the run time, and
  the module neither imports nor declares it.
\<close>

definition useChatStream_scope :: "string list" where
  "useChatStream_scope =
     [''addMessage'', ''addLog'', ''addArtifact'', ''setIsStreaming'', ''currentSessionId'',
      ''setActiveArtifactId'',
      ''useCallback'', ''fetchEventSource'', ''useStore'', ''API_URL'',
      ''message'', ''threadId'', ''ctrl'', ''seenMessageIds'']"

definition resolve :: "string \<Rightarrow> js_error + unit" where
  "resolve name =
     (if name \<in> set useChatStream_scope then Inr () else Inl (ReferenceError name))"

text \<open>What the handlers of one \<open>startStream\<close> call share: the local set and the store.\<close>

record stream_state =
  seenMessageIds :: "string set"
  store :: AppState

text \<open>
  \<open>ev.id || `msg-${Date.now()}`\<close>. One call of the handler reads the clock once: \<open>now\<close>
  stands for \<open>Date.now()\<close> and for \<open>new Date()\<close>.
\<close>

definition message_id :: "nat \<Rightarrow> EventSourceMessage \<Rightarrow> string" where
  "message_id now ev = (if ev_id ev \<noteq> [] then ev_id ev else ''msg-'' @ digits now)"

definition new_log :: "nat \<Rightarrow> event_data \<Rightarrow> string \<Rightarrow> LogStatus \<Rightarrow> AgentLog" where
  "new_log now d step st =
     \<lparr>log_id = ''log-'' @ digits now, log_agent = agent_or_System (agent_name d),
      log_step = step, log_status = st, log_timestamp = now, log_details = None\<rparr>"

definition new_artifact :: "nat \<Rightarrow> event_data \<Rightarrow> Artifact" where
  "new_artifact now d =
     \<lparr>art_id = data_id d, art_type = data_type d, art_title = data_title d,
      art_content = data_content d, art_version = version_or_1 (data_version d),
      art_timestamp = now\<rparr>"

text \<open>
  The body of the \<open>try\<close> block (lines 99-162). \<open>Inl\<close> is a throw. Every throw of the body
  comes before its first effect: the identifier \<open>appendMessageContent\<close> is evaluated
  before any call, \<open>JSON.parse\<close> runs first in its branch, and the properties of \<open>data\<close>
  are read while the argument of \<open>addLog\<close> or \<open>addArtifact\<close> is built.
\<close>

definition onmessage_try ::
  "parser \<Rightarrow> nat \<Rightarrow> EventSourceMessage \<Rightarrow> stream_state \<Rightarrow> js_error + stream_state" where
  "onmessage_try parse now ev st =
     (if ev_event ev = ''message'' then
        (let content = ev_data ev; msgId = message_id now ev in
         if content \<noteq> [] then
           if msgId \<notin> seenMessageIds st then
             Inr (st\<lparr>seenMessageIds := insert msgId (seenMessageIds st),
                     store := addMessage
                       \<lparr>msg_id = msgId, msg_role = R_assistant, msg_content = Str content,
                        msg_timestamp = now, agentName = None, isThinking = None\<rparr>
                       (store st)\<rparr>)
           else
             (case resolve ''appendMessageContent'' of
                Inl e \<Rightarrow> Inl e
              | Inr _ \<Rightarrow> Inr (st\<lparr>store := appendMessageContent msgId content (store st)\<rparr>))
         else Inr st)
      else
        (case parse (ev_data ev) of
           Inl e \<Rightarrow> Inl e
         | Inr data \<Rightarrow>
             if ev_event ev = ''start_of_agent'' \<or> ev_event ev = ''on_chain_start'' then
               (case data of
                  JNull \<Rightarrow> Inl TypeError
                | JValue d \<Rightarrow>
                    Inr (st\<lparr>store := addLog (new_log now d ''Started'' L_running) (store st)\<rparr>))
             else if ev_event ev = ''end_of_agent'' \<or> ev_event ev = ''on_chain_end'' then
               (case data of
                  JNull \<Rightarrow> Inl TypeError
                | JValue d \<Rightarrow>
                    Inr (st\<lparr>store := addLog (new_log now d ''Completed'' L_completed) (store st)\<rparr>))
             else if ev_event ev = ''artifact'' then
               (case data of
                  JNull \<Rightarrow> Inl TypeError
                | JValue d \<Rightarrow>
                    (let newArtifact = new_artifact now d in
                     Inr (st\<lparr>store := setActiveArtifactId (Some (art_id newArtifact))
                                         (addArtifact newArtifact (store st))\<rparr>)))
             else Inr st))"

text \<open>
  The handler (lines 96-166): it returns at once on empty data, and its \<open>catch\<close> only
  logs to the console, so a throw of the body leaves the state as it was. The result is
  a sum because the library must also cope with a handler that throws.
\<close>

definition onmessage ::
  "parser \<Rightarrow> nat \<Rightarrow> EventSourceMessage \<Rightarrow> stream_state \<Rightarrow> js_error + stream_state" where
  "onmessage parse now ev st =
     (if ev_data ev = [] then Inr st
      else (case onmessage_try parse now ev st of
              Inl e \<Rightarrow> Inr st
            | Inr st' \<Rightarrow> Inr st'))"

subsection \<open>The library \<open>fetchEventSource\<close> and \<open>startStream\<close>\<close>

text \<open>
  \<open>fetchEventSource\<close> belongs to the package @microsoft/fetch-event-source, not to this
  repository. Its driver is written here from the package's contract. One connection
  attempt awaits \<open>fetch\<close>, awaits \<open>onopen\<close>, calls \<open>onmessage\<close> for each event of the body
  and, when the body ends, calls \<open>onclose\<close> and resolves the promise. Whatever is thrown
  on that way (by \<open>fetch\<close>, by a handler, by reading the body) goes to \<open>onerror\<close>: when
  \<open>onerror\<close> returns, the library connects again after the interval; when \<open>onerror\<close>
  throws, it rejects the promise with what was thrown. When the page is hidden the
  library aborts the request without calling a handler or settling the promise, and
  connects again once the page is visible.

  What the network does is the environment: a list of attempts, each with the outcome of
  \<open>fetch\<close>, the events that arrive (with the clock reading at each) and the way the body
  ends. A run that uses up the list without settling the promise is still pending.
\<close>

record Response =
  ok :: bool
  status :: nat

datatype ending = StreamClosed | StreamError js_error | PageHidden

datatype attempt =
  FetchFailed js_error
  | FetchAborted
  | Opened Response "(nat \<times> EventSourceMessage) list" ending

datatype settled = Resolved | Rejected js_error

datatype attempt_result = Completed | Caught js_error | Abandoned

record 's handlers =
  onopen :: "Response \<Rightarrow> js_error + unit"
  onmessage_handler :: "nat \<Rightarrow> EventSourceMessage \<Rightarrow> 's \<Rightarrow> js_error + 's"
  onerror :: "js_error \<Rightarrow> js_error + nat option"
  onclose :: "'s \<Rightarrow> js_error + 's"

fun deliver ::
  "(nat \<Rightarrow> EventSourceMessage \<Rightarrow> 's \<Rightarrow> js_error + 's) \<Rightarrow> (nat \<times> EventSourceMessage) list \<Rightarrow> 's
   \<Rightarrow> (js_error \<times> 's) + 's" where
  "deliver h [] st = Inr st"
| "deliver h ((now, ev) # evs) st =
     (case h now ev st of
        Inl e \<Rightarrow> Inl (e, st)
      | Inr st' \<Rightarrow> deliver h evs st')"

definition create :: "'s handlers \<Rightarrow> attempt \<Rightarrow> 's \<Rightarrow> attempt_result \<times> 's" where
  "create h a st =
     (case a of
        FetchFailed e \<Rightarrow> (Caught e, st)
      | FetchAborted \<Rightarrow> (Abandoned, st)
      | Opened response evs how \<Rightarrow>
          (case onopen h response of
             Inl e \<Rightarrow> (Caught e, st)
           | Inr _ \<Rightarrow>
               (case deliver (onmessage_handler h) evs st of
                  Inl (e, st') \<Rightarrow> (Caught e, st')
                | Inr st' \<Rightarrow>
                    (case how of
                       StreamClosed \<Rightarrow>
                         (case onclose h st' of
                            Inl e \<Rightarrow> (Caught e, st')
                          | Inr st'' \<Rightarrow> (Completed, st''))
                     | StreamError e \<Rightarrow> (Caught e, st')
                     | PageHidden \<Rightarrow> (Abandoned, st')))))"

fun fetchEventSource :: "'s handlers \<Rightarrow> attempt list \<Rightarrow> 's \<Rightarrow> settled option \<times> 's" where
  "fetchEventSource h [] st = (None, st)"
| "fetchEventSource h (a # rest) st =
     (case create h a st of
        (Completed, st') \<Rightarrow> (Some Resolved, st')
      | (Caught err, st') \<Rightarrow>
          (case onerror h err of
             Inl e \<Rightarrow> (Some (Rejected e), st')
           | Inr interval \<Rightarrow> fetchEventSource h rest st')
      | (Abandoned, st') \<Rightarrow> fetchEventSource h rest st')"

text \<open>The four handlers \<open>startStream\<close> passes (lines 88-176).\<close>

definition startStream_handlers :: "parser \<Rightarrow> stream_state handlers" where
  "startStream_handlers parse =
     \<lparr>onopen = (\<lambda>response.
         if ok response then Inr ()
         else Inl (Error (''Failed to connect: '' @ digits (status response)))),
      onmessage_handler = onmessage parse,
      onerror = (\<lambda>err. Inl err),
      onclose = (\<lambda>st. Inr (st\<lparr>store := setIsStreaming False (store st)\<rparr>))\<rparr>"

text \<open>
  \<open>startStream\<close> (lines 63-182): \<open>None\<close> while the awaited promise is pending, otherwise the
  store when the function returns. The request body (\<open>message\<close>, \<open>threadId\<close>) reaches the
  server only; the local \<open>AbortController\<close> is never aborted.
\<close>

definition startStream :: "parser \<Rightarrow> attempt list \<Rightarrow> AppState \<Rightarrow> AppState option" where
  "startStream parse attempts state =
     (case fetchEventSource (startStream_handlers parse) attempts
             \<lparr>seenMessageIds = {}, store = setIsStreaming True state\<rparr> of
        (None, st) \<Rightarrow> None
      | (Some Resolved, st) \<Rightarrow> Some (store st)
      | (Some (Rejected err), st) \<Rightarrow> Some (setIsStreaming False (store st)))"

text \<open>An attempt the library abandons without settling the promise.\<close>

fun abandoned :: "attempt \<Rightarrow> bool" where
  "abandoned FetchAborted = True"
| "abandoned (Opened response evs PageHidden) = ok response"
| "abandoned a = False"

section \<open>Slide image generation (src/unnamed/part_003: the hook useSlideGeneration)\<close>

record LayoutDef =
  layout_def_id :: string
  visual_description :: string

record StyleDef =
  global_prompt :: string
  layouts :: "LayoutDef list"

record Slide =
  slide_id :: int
  text_expected :: bool
  layout_id :: string
  visual_prompt :: string
  content_text :: string
  tool :: "string option"
  reasoning :: "string option"

text \<open>
  The two \<open>useState\<close> cells of the hook, passed explicitly: \<open>generateImage\<close> is rebuilt
  whenever \<open>imageUrl\<close> changes (it is among the dependencies of \<open>useCallback\<close>), so the
  callback reads the current value.
\<close>

record generation_state =
  imageUrl :: "string option"
  isGenerating :: bool

text \<open>The one request the hook can send: POST /api/generate-slide with the slide and the style.\<close>

datatype request = GenerateSlide Slide "StyleDef option"

text \<open>
  What the server does with the request is the environment: \<open>fetch\<close> rejects, the response
  is not \<open>ok\<close>, its body is not JSON, or the body carries a \<open>url\<close>.
\<close>

datatype fetch_outcome = NetworkError | NotOk | BadJson | OkUrl string

text \<open>\<open>if (imageUrl)\<close>: \<open>null\<close> and the empty string are falsy.\<close>

definition truthy :: "string option \<Rightarrow> bool" where
  "truthy u = (case u of None \<Rightarrow> False | Some t \<Rightarrow> t \<noteq> [])"

text \<open>\<open>generateImage\<close> (lines 19-37): the state after the call and the requests it sent.\<close>

definition generateImage ::
  "Slide \<Rightarrow> StyleDef option \<Rightarrow> fetch_outcome \<Rightarrow> nat \<Rightarrow> generation_state
   \<Rightarrow> generation_state \<times> request list" where
  "generateImage slide styleDef outcome now st =
     (if truthy (imageUrl st) then (st, [])
      else
        (let st1 = st\<lparr>isGenerating := True\<rparr>; sent = [GenerateSlide slide styleDef] in
         case outcome of
           OkUrl url \<Rightarrow>
             (st1\<lparr>imageUrl := Some (url @ ''?t='' @ digits now), isGenerating := False\<rparr>, sent)
         | NetworkError \<Rightarrow> (st1\<lparr>imageUrl := None, isGenerating := False\<rparr>, sent)
         | NotOk \<Rightarrow> (st1\<lparr>imageUrl := None, isGenerating := False\<rparr>, sent)
         | BadJson \<Rightarrow> (st1\<lparr>imageUrl := None, isGenerating := False\<rparr>, sent)))"

section \<open>Properties of the store\<close>

text \<open>The version the store holds for an artifact id.\<close>

definition storedVersion :: "string \<Rightarrow> AppState \<Rightarrow> int option" where
  "storedVersion i state = map_option art_version (lookupArtifact i state)"

subsection \<open>Concrete values for the examples\<close>

definition hello :: ChatMessage where
  "hello = \<lparr>msg_id = ''m1'', msg_role = R_user, msg_content = Str ''hello'',
            msg_timestamp = 1, agentName = None, isThinking = None\<rparr>"

definition hello_again :: ChatMessage where
  "hello_again = \<lparr>msg_id = ''m1'', msg_role = R_assistant, msg_content = Str ''again'',
                  msg_timestamp = 2, agentName = None, isThinking = None\<rparr>"

definition deck :: "int \<Rightarrow> Artifact" where
  "deck v = \<lparr>art_id = ''deck'', art_type = A_outline, art_title = ''Deck'',
            art_content = Str ''# Outline'', art_version = v, art_timestamp = 0\<rparr>"

definition memo :: Artifact where
  "memo = \<lparr>art_id = ''memo'', art_type = A_report, art_title = ''Memo'',
           art_content = Str ''...'', art_version = 1, art_timestamp = 3\<rparr>"

definition two_artifacts :: AppState where
  "two_artifacts = addArtifact memo (addArtifact (deck 1) initial_store)"

definition retitle :: PartialArtifact where
  "retitle = \<lparr>upd_id = None, upd_type = None, upd_title = Some ''Final deck'',
              upd_content = None, upd_version = Some 2, upd_timestamp = None\<rparr>"

definition log0 :: AgentLog where
  "log0 = \<lparr>log_id = ''log-1'', log_agent = ''planner'', log_step = ''Started'',
           log_status = L_running, log_timestamp = 1, log_details = None\<rparr>"

definition deck_event :: EventSourceMessage where
  "deck_event = \<lparr>ev_id = [], ev_event = ''artifact'', ev_data = ''{}''\<rparr>"

definition deck_data :: event_data where
  "deck_data = \<lparr>agent_name = None, data_id = ''deck'', data_type = A_outline,
                data_title = ''Deck'', data_content = Str ''x'', data_version = None\<rparr>"

definition deck_parse :: parser where
  "deck_parse t = Inr (JValue deck_data)"

definition no_parse :: parser where
  "no_parse t = Inl SyntaxError"

definition chunk :: "string \<Rightarrow> EventSourceMessage" where
  "chunk t = \<lparr>ev_id = ''m1'', ev_event = ''message'', ev_data = t\<rparr>"

definition fresh_stream :: stream_state where
  "fresh_stream = \<lparr>seenMessageIds = {}, store = setIsStreaming True initial_store\<rparr>"

definition after_first_chunk :: stream_state where
  "after_first_chunk =
     \<lparr>seenMessageIds = {''m1''},
      store = (setIsStreaming True initial_store)
        \<lparr>messages := [\<lparr>msg_id = ''m1'', msg_role = R_assistant, msg_content = Str ''Hel'',
                        msg_timestamp = 1, agentName = None, isThinking = None\<rparr>]\<rparr>\<rparr>"

definition closing :: attempt where
  "closing =
     Opened \<lparr>ok = True, status = 200\<rparr> [(1, chunk ''Hel''), (2, chunk ''lo'')] StreamClosed"

definition refused :: attempt where
  "refused = Opened \<lparr>ok = False, status = 500\<rparr> [] StreamClosed"

definition broken :: attempt where
  "broken =
     Opened \<lparr>ok = True, status = 200\<rparr> [(1, chunk ''Hel'')] (StreamError (Error ''reset''))"

definition slide1 :: Slide where
  "slide1 = \<lparr>slide_id = 1, text_expected = True, layout_id = ''title'',
             visual_prompt = ''A lighthouse at dusk'', content_text = ''Welcome'',
             tool = None, reasoning = None\<rparr>"

definition shown :: generation_state where
  "shown = \<lparr>imageUrl = Some ''/static/images/a.png?t=5'', isGenerating = False\<rparr>"

subsection \<open>Messages\<close>

text \<open>
  C8. \<open>addMessage\<close> returns the state itself when a message with the id of the new one is
  stored. So the ids of the stored messages stay pairwise distinct under any sequence
  of \<open>addMessage\<close> calls, from the empty store as from any state whose ids are distinct.
\<close>

theorem addMessage_duplicate_noop:
  "((\<exists>m' \<in> set (messages s). msg_id m' = msg_id m) \<longrightarrow> addMessage m s = s)
   \<and> (distinct (map msg_id (messages s)) \<longrightarrow>
        distinct (map msg_id (messages (fold addMessage ms s))))
   \<and> distinct (map msg_id (messages (fold addMessage ms initial_store)))"
proof -
  have "addMessage m s = s" if "\<exists>m' \<in> set (messages s). msg_id m' = msg_id m"
  proof -
    from that have "find (\<lambda>a. msg_id a = msg_id m) (messages s) \<noteq> None"
      by (simp add: find_None_iff_id)
    then show ?thesis by (auto simp: addMessage_def)
  qed
  moreover have "distinct (map msg_id (messages initial_store))"
    by (simp add: initial_store_def)
  ultimately show ?thesis
    by (simp add: fold_addMessage_distinct)
qed

theorem addMessage_duplicate_noop_witness:
  "messages (addMessage hello initial_store) = [hello]
   \<and> msg_id hello_again = msg_id hello
   \<and> addMessage hello_again (addMessage hello initial_store) = addMessage hello initial_store
   \<and> distinct (map msg_id (messages (fold addMessage [hello, hello_again] initial_store)))"
  using addMessage_duplicate_noop
    [of "addMessage hello initial_store" hello_again "[hello, hello_again]"]
  by (simp add: addMessage_def initial_store_def hello_def hello_again_def)

subsection \<open>Artifacts\<close>

text \<open>
  C9. \<open>updateArtifact\<close> keeps the length of the list and every position whose artifact
  has another id, and changes nothing when no artifact has the id.
\<close>

theorem updateArtifact_frame:
  "length (artifacts (updateArtifact i u s)) = length (artifacts s)
   \<and> (\<forall>k < length (artifacts s).
         art_id (artifacts s ! k) \<noteq> i \<longrightarrow>
         artifacts (updateArtifact i u s) ! k = artifacts s ! k)
   \<and> ((\<forall>a \<in> set (artifacts s). art_id a \<noteq> i) \<longrightarrow>
         artifacts (updateArtifact i u s) = artifacts s)"
proof -
  have "map (\<lambda>a. if art_id a = i then spread a u else a) xs = xs"
    if "\<forall>a \<in> set xs. art_id a \<noteq> i" for xs
    using that by (induction xs) auto
  then show ?thesis
    by (simp add: updateArtifact_def)
qed

theorem updateArtifact_frame_witness:
  "artifacts two_artifacts = [deck 1, memo]
   \<and> artifacts (updateArtifact ''deck'' retitle two_artifacts)
       = [(deck 2)\<lparr>art_title := ''Final deck''\<rparr>, memo]
   \<and> artifacts (updateArtifact ''slides'' retitle two_artifacts) = artifacts two_artifacts"
  using updateArtifact_frame [of "''deck''" retitle two_artifacts]
    updateArtifact_frame [of "''slides''" retitle two_artifacts]
  by (simp add: two_artifacts_def updateArtifact_def addArtifact_def initial_store_def deck_def
      memo_def retitle_def spread_def)

lemma onmessage_artifact:
  assumes "ev_event ev = ''artifact''" "ev_data ev \<noteq> []" "parse (ev_data ev) = Inr (JValue d)"
  shows "onmessage parse now ev st =
         Inr (st\<lparr>store := setActiveArtifactId (Some (data_id d))
                              (addArtifact (new_artifact now d) (store st))\<rparr>)"
  using assms by (simp add: onmessage_def onmessage_try_def Let_def new_artifact_def)

lemma lookup_setActiveArtifactId:
  "lookupArtifact i (setActiveArtifactId j s) = lookupArtifact i s"
  by (simp add: lookupArtifact_def setActiveArtifactId_def)

text \<open>
  C1, as the code has it. The store holds no counter: after \<open>addArtifact\<close> the version
  stored for the id is the version of the incoming artifact, whatever was stored before,
  so it has grown exactly when the incoming version is the greater one. The stream
  handler takes that version from the event (\<open>data.version || 1\<close>).
\<close>

theorem addArtifact_version_is_incoming:
  "(storedVersion (art_id b) s = Some v \<longrightarrow>
      storedVersion (art_id b) (addArtifact b s) = Some (art_version b)
      \<and> ((\<exists>v'. storedVersion (art_id b) (addArtifact b s) = Some v' \<and> v < v')
           \<longleftrightarrow> v < art_version b))
   \<and> (ev_event ev = ''artifact'' \<and> ev_data ev \<noteq> [] \<and> parse (ev_data ev) = Inr (JValue d) \<longrightarrow>
        (\<exists>st'. onmessage parse now ev st = Inr st'
           \<and> storedVersion (data_id d) (store st') = Some (version_or_1 (data_version d))))"
proof -
  have a: "storedVersion (art_id b) (addArtifact b s) = Some (art_version b)" for b s
    by (simp add: storedVersion_def lookup_addArtifact)
  have "storedVersion (data_id d) (addArtifact (new_artifact now d) (store st))
        = Some (version_or_1 (data_version d))"
    using a [of "new_artifact now d" "store st"] by (simp add: new_artifact_def)
  then have "storedVersion (data_id d)
      (setActiveArtifactId (Some (data_id d)) (addArtifact (new_artifact now d) (store st)))
        = Some (version_or_1 (data_version d))"
    by (simp add: storedVersion_def lookup_setActiveArtifactId)
  then show ?thesis
    using a [of b s] by (auto simp: onmessage_artifact)
qed

theorem addArtifact_version_is_incoming_witness:
  "storedVersion ''deck'' (addArtifact (deck 2) initial_store) = Some 2
   \<and> storedVersion ''deck'' (addArtifact (deck 5) (addArtifact (deck 2) initial_store)) = Some 5
   \<and> (\<exists>st'. onmessage deck_parse 7 deck_event
                \<lparr>seenMessageIds = {}, store = addArtifact (deck 2) initial_store\<rparr> = Inr st'
            \<and> storedVersion ''deck'' (store st') = Some 1)"
  using addArtifact_version_is_incoming [of "deck 5" "addArtifact (deck 2) initial_store" 2
      deck_event deck_parse deck_data 7
      "\<lparr>seenMessageIds = {}, store = addArtifact (deck 2) initial_store\<rparr>"]
  by (simp add: storedVersion_def lookupArtifact_def addArtifact_def initial_store_def deck_def
      version_or_1_def deck_event_def deck_parse_def deck_data_def)

text \<open>
  C1 as stated fails: replacing the stored version 2 of an artifact by an incoming
  version 1 of the same id leaves version 1 in the store.
\<close>

theorem version_not_increasing_counterexample:
  "storedVersion ''deck'' (addArtifact (deck 2) initial_store) = Some 2
   \<and> storedVersion ''deck'' (addArtifact (deck 1) (addArtifact (deck 2) initial_store)) = Some 1"
  by (simp add: storedVersion_def lookupArtifact_def addArtifact_def initial_store_def deck_def
      spread_def whole_def)

subsection \<open>The log\<close>

text \<open>
  C5, as the code has it. Every operation of the store but \<open>clearLogs\<close> keeps the log as
  a prefix of the new log, \<open>addLog\<close> appends exactly one entry at the end, and \<open>clearLogs\<close>
  empties the log.
\<close>

theorem log_append_only_except_clear:
  "(op \<noteq> ClearLogs \<longrightarrow> prefix (logs s) (logs (apply_op op s)))
   \<and> logs (addLog l s) = logs s @ [l]
   \<and> logs (clearLogs s) = []"
  by (cases op)
    (simp_all add: setUser_def setCurrentSessionId_def setSessions_def addMessage_def
      appendMessageContent_def setMessages_def addLog_def clearLogs_def setIsStreaming_def
      addArtifact_def updateArtifact_def setActiveArtifactId_def toggleSidebar_def
      setMessageInput_def split: option.splits)

theorem log_append_only_except_clear_witness:
  "AddLog log0 \<noteq> ClearLogs
   \<and> prefix (logs (addLog log0 initial_store))
        (logs (apply_op (AddLog log0) (addLog log0 initial_store)))
   \<and> logs (apply_op (AddLog log0) (addLog log0 initial_store)) = [log0, log0]"
  using log_append_only_except_clear [of "AddLog log0" "addLog log0 initial_store" log0]
  by (simp add: addLog_def initial_store_def)

text \<open>C5 as stated fails: \<open>clearLogs\<close> is an operation on the log that drops what was recorded.\<close>

theorem clearLogs_counterexample:
  "logs (addLog log0 initial_store) = [log0]
   \<and> logs (clearLogs (addLog log0 initial_store)) = []
   \<and> \<not> prefix (logs (addLog log0 initial_store))
          (logs (clearLogs (addLog log0 initial_store)))"
  by (simp add: addLog_def clearLogs_def initial_store_def)

section \<open>Properties of the chat stream\<close>

lemma resolve_appendMessageContent:
  "resolve ''appendMessageContent'' = Inl (ReferenceError ''appendMessageContent'')"
  by (simp add: resolve_def useChatStream_scope_def)

lemma onmessage_never_throws: "\<exists>st'. onmessage parse now ev st = Inr st'"
  by (simp add: onmessage_def split: sum.splits)

lemma deliver_onmessage: "\<exists>st'. deliver (onmessage parse) evs st = Inr st'"
proof (induction evs arbitrary: st)
  case Nil
  show ?case by simp
next
  case (Cons p evs)
  obtain now ev where p: "p = (now, ev)" by (cases p)
  obtain st1 where "onmessage parse now ev st = Inr st1"
    using onmessage_never_throws by blast
  with Cons.IH [of st1] p show ?case by simp
qed

text \<open>A \<open>message\<close> event with data leaves its id in \<open>seenMessageIds\<close>.\<close>

lemma message_event_marks_seen:
  "ev_event ev = ''message'' \<Longrightarrow> ev_data ev \<noteq> [] \<Longrightarrow> onmessage parse now ev st = Inr st' \<Longrightarrow>
   message_id now ev \<in> seenMessageIds st'"
  by (auto simp: onmessage_def onmessage_try_def Let_def resolve_appendMessageContent
      split: if_splits)

text \<open>
  C10. A \<open>message\<close> event whose id is in \<open>seenMessageIds\<close> takes the \<open>else\<close> branch, where
  the identifier \<open>appendMessageContent\<close> is unbound: the body throws a \<open>ReferenceError\<close>,
  the \<open>catch\<close> of the handler takes it, and the handler returns with the state, the
  stored messages among it, as it was.
\<close>

theorem duplicate_message_event_is_dropped:
  "ev_event ev = ''message'' \<Longrightarrow> message_id now ev \<in> seenMessageIds st \<Longrightarrow>
   onmessage parse now ev st = Inr st
   \<and> (ev_data ev \<noteq> [] \<longrightarrow>
        onmessage_try parse now ev st = Inl (ReferenceError ''appendMessageContent''))"
  by (simp add: onmessage_def onmessage_try_def Let_def resolve_appendMessageContent)

theorem duplicate_message_event_is_dropped_witness:
  "onmessage no_parse 1 (chunk ''Hel'') fresh_stream = Inr after_first_chunk
   \<and> ev_event (chunk ''lo'') = ''message''
   \<and> message_id 2 (chunk ''lo'') \<in> seenMessageIds after_first_chunk
   \<and> onmessage no_parse 2 (chunk ''lo'') after_first_chunk = Inr after_first_chunk
   \<and> onmessage_try no_parse 2 (chunk ''lo'') after_first_chunk
       = Inl (ReferenceError ''appendMessageContent'')
   \<and> map msg_content (messages (store after_first_chunk)) = [Str ''Hel'']"
  using duplicate_message_event_is_dropped [of "chunk ''lo''" 2 after_first_chunk no_parse]
  by (simp add: onmessage_def onmessage_try_def Let_def chunk_def fresh_stream_def
      after_first_chunk_def message_id_def addMessage_def setIsStreaming_def initial_store_def)

lemma create_cases:
  "create (startStream_handlers parse) a st = (r, st') \<Longrightarrow>
   (r = Completed \<longrightarrow> \<not> isStreaming (store st')) \<and> (r = Abandoned \<longrightarrow> abandoned a)"
proof (cases a)
  case (FetchFailed e)
  assume "create (startStream_handlers parse) a st = (r, st')"
  with FetchFailed show ?thesis by (auto simp: create_def)
next
  case FetchAborted
  assume "create (startStream_handlers parse) a st = (r, st')"
  with FetchAborted show ?thesis by (auto simp: create_def)
next
  case (Opened response evs how)
  assume c: "create (startStream_handlers parse) a st = (r, st')"
  obtain st1 where d: "deliver (onmessage parse) evs st = Inr st1"
    using deliver_onmessage by blast
  from c Opened d show ?thesis
    by (cases how)
      (auto simp: create_def startStream_handlers_def setIsStreaming_def split: if_splits)
qed

lemma fetchEventSource_resolved:
  "fetchEventSource (startStream_handlers parse) as st = (Some Resolved, st') \<Longrightarrow>
   \<not> isStreaming (store st')"
proof (induction as arbitrary: st)
  case Nil
  then show ?case by simp
next
  case (Cons a as)
  obtain r st1 where c: "create (startStream_handlers parse) a st = (r, st1)"
    by (cases "create (startStream_handlers parse) a st")
  show ?case
  proof (cases r)
    case Completed
    with c Cons.prems create_cases [OF c] show ?thesis by simp
  next
    case (Caught e)
    with c Cons.prems show ?thesis by (simp add: startStream_handlers_def)
  next
    case Abandoned
    with c Cons.prems Cons.IH [of st1] show ?thesis by simp
  qed
qed

lemma fetchEventSource_settles:
  "\<exists>a \<in> set as. \<not> abandoned a \<Longrightarrow>
   fst (fetchEventSource (startStream_handlers parse) as st) \<noteq> None"
proof (induction as arbitrary: st)
  case Nil
  then show ?case by simp
next
  case (Cons a as)
  obtain r st1 where c: "create (startStream_handlers parse) a st = (r, st1)"
    by (cases "create (startStream_handlers parse) a st")
  show ?case
  proof (cases r)
    case Completed
    with c show ?thesis by simp
  next
    case (Caught e)
    with c show ?thesis by (simp add: startStream_handlers_def)
  next
    case Abandoned
    with create_cases [OF c] have "abandoned a" by simp
    with Cons.prems have "\<exists>a \<in> set as. \<not> abandoned a" by auto
    with Cons.IH [of st1] c Abandoned show ?thesis by simp
  qed
qed

text \<open>
  C6. Whenever \<open>startStream\<close> returns, \<open>isStreaming\<close> is false: the promise was resolved
  after \<open>onclose\<close>, or it was rejected (\<open>onerror\<close> rethrows whatever failed) and the \<open>catch\<close>
  of \<open>startStream\<close> ran. And it does return as soon as one connection attempt is not
  abandoned by the library.
\<close>

theorem startStream_never_left_streaming:
  "(\<forall>s'. startStream parse attempts s = Some s' \<longrightarrow> \<not> isStreaming s')
   \<and> ((\<exists>a \<in> set attempts. \<not> abandoned a) \<longrightarrow>
        (\<exists>s'. startStream parse attempts s = Some s' \<and> \<not> isStreaming s'))"
proof -
  let ?st0 = "\<lparr>seenMessageIds = {}, store = setIsStreaming True s\<rparr>"
  obtain r st where f: "fetchEventSource (startStream_handlers parse) attempts ?st0 = (r, st)"
    by (cases "fetchEventSource (startStream_handlers parse) attempts ?st0")
  have 1: "\<not> isStreaming s'" if "startStream parse attempts s = Some s'" for s'
  proof (cases r)
    case None
    with f that show ?thesis by (simp add: startStream_def)
  next
    case (Some outcome)
    show ?thesis
    proof (cases outcome)
      case Resolved
      with f Some that fetchEventSource_resolved [of parse attempts ?st0 st] show ?thesis
        by (simp add: startStream_def)
    next
      case (Rejected e)
      with f Some that show ?thesis
        by (auto simp: startStream_def setIsStreaming_def)
    qed
  qed
  have 2: "\<exists>s'. startStream parse attempts s = Some s'"
    if "\<exists>a \<in> set attempts. \<not> abandoned a"
  proof -
    from fetchEventSource_settles [OF that, of parse ?st0] f have "r \<noteq> None" by simp
    with f show ?thesis
      by (auto simp: startStream_def split: settled.splits)
  qed
  from 1 2 show ?thesis by blast
qed

theorem startStream_never_left_streaming_witness:
  "\<not> abandoned closing
   \<and> map_option isStreaming (startStream no_parse [FetchAborted, closing] initial_store)
       = Some False"
  using startStream_never_left_streaming [of no_parse "[FetchAborted, closing]" initial_store]
  by (auto simp: closing_def)

text \<open>The exit paths one by one, and the run that never returns.\<close>

lemma startStream_paths:
  "map_option isStreaming (startStream no_parse [closing] initial_store) = Some False"
  "map_option isStreaming (startStream no_parse [refused] initial_store) = Some False"
  "map_option isStreaming (startStream no_parse [broken] initial_store) = Some False"
  "map_option isStreaming (startStream no_parse [FetchFailed TypeError] initial_store)
     = Some False"
  "startStream no_parse [FetchAborted] initial_store = None"
  by (simp_all add: startStream_def startStream_handlers_def create_def closing_def refused_def
      broken_def chunk_def onmessage_def onmessage_try_def Let_def message_id_def addMessage_def
      setIsStreaming_def initial_store_def resolve_def useChatStream_scope_def no_parse_def)

section \<open>Resubmission\<close>

lemma same_id_same_artifact:
  "distinct (map art_id xs) \<Longrightarrow> b \<in> set xs \<Longrightarrow> a \<in> set xs \<Longrightarrow> art_id a = art_id b \<Longrightarrow> a = b"
  by (meson distinct_map inj_onD)

lemma replace_stored:
  "distinct (map art_id xs) \<Longrightarrow> b \<in> set xs \<Longrightarrow>
   map (\<lambda>a. if art_id a = art_id b then b else a) xs = xs"
  by (rule map_idI) (auto dest: same_id_same_artifact)

lemma addArtifact_stored:
  "b \<in> set (artifacts s) \<Longrightarrow>
   addArtifact b s =
     s\<lparr>artifacts := map (\<lambda>a. if art_id a = art_id b then b else a) (artifacts s)\<rparr>"
proof -
  assume "b \<in> set (artifacts s)"
  then have "find (\<lambda>a. art_id a = art_id b) (artifacts s) \<noteq> None"
    by (auto simp: find_None_iff_id)
  then show ?thesis
    by (auto simp: addArtifact_def spread_whole cong: if_cong)
qed

lemma addArtifact_distinct:
  "distinct (map art_id (artifacts s)) \<Longrightarrow> distinct (map art_id (artifacts (addArtifact b s)))"
proof -
  have "art_id \<circ> (\<lambda>a. if art_id a = art_id b then spread a (whole b) else a) = art_id"
    by (auto simp: fun_eq_iff spread_whole)
  then show "distinct (map art_id (artifacts s)) \<Longrightarrow> ?thesis"
    by (auto simp: addArtifact_def find_None_iff_id split: option.splits)
qed

lemma fold_addArtifact_distinct:
  "distinct (map art_id (artifacts s)) \<Longrightarrow>
   distinct (map art_id (artifacts (fold addArtifact bs s)))"
  by (induction bs arbitrary: s) (simp_all add: addArtifact_distinct)

text \<open>
  A store in which two artifacts share an id: \<open>updateArtifact\<close> takes an \<open>id\<close> among its
  updates, and here it gives the memo the id of the deck.
\<close>

definition relabel :: PartialArtifact where
  "relabel = \<lparr>upd_id = Some ''deck'', upd_type = None, upd_title = None,
              upd_content = None, upd_version = Some 2, upd_timestamp = None\<rparr>"

definition memo_as_deck :: Artifact where
  "memo_as_deck = memo\<lparr>art_id := ''deck'', art_version := 2\<rparr>"

definition shared_id_store :: AppState where
  "shared_id_store =
     fold apply_op [AddArtifact (deck 1), AddArtifact memo, UpdateArtifact ''memo'' relabel]
       initial_store"

text \<open>
  C7, as the code has it. In every state, adding an artifact that is stored already
  adds no entry and leaves every entry equal to it in place. Where the ids of the
  stored artifacts are pairwise distinct, the whole state is unchanged; \<open>addArtifact\<close>
  keeps the ids distinct, so this is every state that calls of \<open>addArtifact\<close> build from
  the empty store. \<open>generateImage\<close> returns at once, with no request sent and the state
  unchanged, when \<open>imageUrl\<close> is set.
\<close>

theorem resubmission_is_noop_for_distinct_ids:
  "(b \<in> set (artifacts s) \<longrightarrow>
      length (artifacts (addArtifact b s)) = length (artifacts s)
      \<and> (\<forall>k < length (artifacts s).
            artifacts s ! k = b \<longrightarrow> artifacts (addArtifact b s) ! k = b))
   \<and> (b \<in> set (artifacts s) \<and> distinct (map art_id (artifacts s)) \<longrightarrow> addArtifact b s = s)
   \<and> distinct (map art_id (artifacts (fold addArtifact bs initial_store)))
   \<and> (b \<in> set (artifacts (fold addArtifact bs initial_store)) \<longrightarrow>
        addArtifact b (fold addArtifact bs initial_store) = fold addArtifact bs initial_store)
   \<and> (truthy (imageUrl g) \<longrightarrow> generateImage slide styleDef outcome now g = (g, []))"
proof -
  have 1: "addArtifact b s = s"
    if "b \<in> set (artifacts s)" "distinct (map art_id (artifacts s))" for s
    using that by (simp add: addArtifact_stored replace_stored)
  have 2: "length (artifacts (addArtifact b s)) = length (artifacts s)"
    if "b \<in> set (artifacts s)"
    using that by (simp add: addArtifact_stored)
  have 3: "artifacts (addArtifact b s) ! k = b"
    if "b \<in> set (artifacts s)" "k < length (artifacts s)" "artifacts s ! k = b" for k
    using that by (simp add: addArtifact_stored)
  have 4: "generateImage slide styleDef outcome now g = (g, [])" if "truthy (imageUrl g)"
    using that by (simp add: generateImage_def)
  have 5: "distinct (map art_id (artifacts (fold addArtifact bs initial_store)))"
    by (rule fold_addArtifact_distinct) (simp add: initial_store_def)
  from 1 [of s] 1 [OF _ 5] 2 3 4 5 show ?thesis
    by simp
qed

theorem resubmission_is_noop_for_distinct_ids_witness:
  "fold addArtifact [deck 1, memo] initial_store = two_artifacts
   \<and> deck 1 \<in> set (artifacts two_artifacts)
   \<and> distinct (map art_id (artifacts two_artifacts))
   \<and> addArtifact (deck 1) two_artifacts = two_artifacts
   \<and> truthy (imageUrl shown)
   \<and> generateImage slide1 None (OkUrl ''/static/images/b.png'') 9 shown = (shown, [])"
  using resubmission_is_noop_for_distinct_ids [of "deck 1" two_artifacts "[deck 1, memo]"
      shown slide1 None "OkUrl ''/static/images/b.png''" 9]
  by (simp add: two_artifacts_def addArtifact_def initial_store_def truthy_def shown_def
      deck_def memo_def)

text \<open>
  C7 as stated fails: in the store where the memo carries the id of the deck, adding
  the stored second entry again overwrites the first one. The state changes, and the
  version found for the id goes from 1 to 2.
\<close>

theorem shared_id_resubmission_counterexample:
  "artifacts shared_id_store = [deck 1, memo_as_deck]
   \<and> memo_as_deck \<in> set (artifacts shared_id_store)
   \<and> storedVersion (art_id memo_as_deck) shared_id_store = Some 1
   \<and> artifacts (addArtifact memo_as_deck shared_id_store) = [memo_as_deck, memo_as_deck]
   \<and> storedVersion (art_id memo_as_deck) (addArtifact memo_as_deck shared_id_store) = Some 2
   \<and> addArtifact memo_as_deck shared_id_store \<noteq> shared_id_store"
  by (simp add: shared_id_store_def memo_as_deck_def relabel_def deck_def memo_def
      addArtifact_def updateArtifact_def initial_store_def spread_def whole_def
      storedVersion_def lookupArtifact_def)

section \<open>The Consistency Engine (spec, sections 3 and 4.3)\<close>

text \<open>
  The engine lives in the back end (the Visualizer node of \<open>src/graph/nodes.py\<close>), which is
  not among the sources: only the README that describes its three strategies is. This
  section follows the words of the specification.
\<close>

text \<open>Modelled from the spec: the \<open>origin\<close> enumeration of \<open>AnchorRef\<close> (section 3).\<close>

datatype origin = explicit_style | first_slide_fallback | reused_from_prior_session

text \<open>
  Modelled from the spec: \<open>AnchorRef\<close> (section 3). The opaque handle of the image bytes
  is a number.
\<close>

record AnchorRef =
  image_bytes_ref :: nat
  origin :: origin

text \<open>
  Modelled from the spec: the capability \<open>generateImage(promptSpec, referenceImage?)\<close> of
  the Model Invocation Port (section 6), from a prompt and an optional reference image to
  the handle of the produced image. A call that fails is a transport failure, which ends
  the session at the Supervisor (section 4.1); the engine is followed along the calls
  that return.
\<close>

type_synonym port = "string \<Rightarrow> nat option \<Rightarrow> nat"

text \<open>
  Modelled from the spec: what the selection algorithm of section 4.3 looks at. The
  session was opened in edit mode against a prior session that recorded an anchor
  (\<open>prior_anchor\<close>), or an explicit style definition was supplied, given here by the prompt
  of its dedicated anchor request (\<open>style_definition\<close>).
\<close>

record engine_setup =
  prior_anchor :: "AnchorRef option"
  style_definition :: "string option"

text \<open>
  Modelled from the spec: what the engine does, in order. A call of the port with its
  prompt, its reference and its result; the selection of the anchor; its clearing.
\<close>

datatype engine_event =
  PortCall string "nat option" nat
  | AnchorSelected AnchorRef
  | AnchorCleared

text \<open>
  Modelled from the spec: the \<open>style_anchor\<close> field of \<open>SessionState\<close> (section 3), with the
  trace of the engine.
\<close>

record engine_state =
  style_anchor :: "AnchorRef option"
  trace :: "engine_event list"

text \<open>Modelled from the spec: the engine of a session that has just begun.\<close>

definition new_engine :: engine_state where
  "new_engine = \<lparr>style_anchor = None, trace = []\<rparr>"

text \<open>
  Modelled from the spec: an image request for a slide (section 4.3). With an anchor set,
  the call is conditioned on it. Without one, the selection algorithm runs, in priority
  order: the reused anchor is adopted; else the explicit style gets one dedicated
  generation request whose result is stored as the anchor; else the slide is generated
  normally and recorded as the anchor.
\<close>

definition request_image :: "port \<Rightarrow> engine_setup \<Rightarrow> string \<Rightarrow> engine_state \<Rightarrow> engine_state" where
  "request_image gen init prompt st =
     (case style_anchor st of
        Some a \<Rightarrow>
          st\<lparr>trace := trace st @
                [PortCall prompt (Some (image_bytes_ref a))
                   (gen prompt (Some (image_bytes_ref a)))]\<rparr>
      | None \<Rightarrow>
          (case prior_anchor init of
             Some p \<Rightarrow>
               (let a = \<lparr>image_bytes_ref = image_bytes_ref p, origin = reused_from_prior_session\<rparr>
                in st\<lparr>style_anchor := Some a,
                      trace := trace st @
                        [AnchorSelected a,
                         PortCall prompt (Some (image_bytes_ref a))
                           (gen prompt (Some (image_bytes_ref a)))]\<rparr>)
           | None \<Rightarrow>
               (case style_definition init of
                  Some style \<Rightarrow>
                    (let a = \<lparr>image_bytes_ref = gen style None, origin = explicit_style\<rparr>
                     in st\<lparr>style_anchor := Some a,
                           trace := trace st @
                             [PortCall style None (gen style None),
                              AnchorSelected a,
                              PortCall prompt (Some (image_bytes_ref a))
                                (gen prompt (Some (image_bytes_ref a)))]\<rparr>)
                | None \<Rightarrow>
                    (let a = \<lparr>image_bytes_ref = gen prompt None, origin = first_slide_fallback\<rparr>
                     in st\<lparr>style_anchor := Some a,
                           trace := trace st @
                             [PortCall prompt None (gen prompt None), AnchorSelected a]\<rparr>))))"

text \<open>
  Modelled from the spec: the explicit restyle action (section 4.3). It clears
  \<open>style_anchor\<close>, so that the selection algorithm runs again at the next image request.
\<close>

definition restyle :: "engine_state \<Rightarrow> engine_state" where
  "restyle st = st\<lparr>style_anchor := None, trace := trace st @ [AnchorCleared]\<rparr>"

text \<open>Modelled from the spec: what a session asks of the engine.\<close>

datatype engine_action = RequestImage string | Restyle

text \<open>Modelled from the spec: the engine along the actions of a session, in order.\<close>

fun run_engine :: "port \<Rightarrow> engine_setup \<Rightarrow> engine_action list \<Rightarrow> engine_state \<Rightarrow> engine_state" where
  "run_engine gen init [] st = st"
| "run_engine gen init (RequestImage prompt # acts) st =
     run_engine gen init acts (request_image gen init prompt st)"
| "run_engine gen init (Restyle # acts) st = run_engine gen init acts (restyle st)"

text \<open>
  Modelled from the spec: the number of anchor-producing calls of a trace (section 8), the
  selections of an anchor it holds.
\<close>

fun anchor_selections :: "engine_event list \<Rightarrow> nat" where
  "anchor_selections [] = 0"
| "anchor_selections (AnchorSelected a # es) = Suc (anchor_selections es)"
| "anchor_selections (e # es) = anchor_selections es"

text \<open>Modelled from the spec: the number of explicit restyle actions among the actions.\<close>

fun restyles :: "engine_action list \<Rightarrow> nat" where
  "restyles [] = 0"
| "restyles (Restyle # acts) = Suc (restyles acts)"
| "restyles (a # acts) = restyles acts"

text \<open>Modelled from the spec: the call of a later request, conditioned on the anchor.\<close>

definition conditioned_call :: "port \<Rightarrow> AnchorRef \<Rightarrow> string \<Rightarrow> engine_event" where
  "conditioned_call gen a prompt =
     PortCall prompt (Some (image_bytes_ref a)) (gen prompt (Some (image_bytes_ref a)))"

section \<open>Properties of the Consistency Engine\<close>

lemma anchor_selections_append:
  "anchor_selections (xs @ ys) = anchor_selections xs + anchor_selections ys"
  by (induction xs rule: anchor_selections.induct) simp_all

lemma anchor_selections_conditioned:
  "anchor_selections (map (conditioned_call gen a) ps) = 0"
  by (induction ps) (simp_all add: conditioned_call_def)

lemma request_image_anchored:
  "style_anchor st = Some a \<Longrightarrow>
   request_image gen init prompt st = st\<lparr>trace := trace st @ [conditioned_call gen a prompt]\<rparr>"
  by (simp add: request_image_def conditioned_call_def)

lemma request_image_selects:
  "style_anchor st = None \<Longrightarrow>
   (\<exists>a. style_anchor (request_image gen init prompt st) = Some a)
   \<and> anchor_selections (trace (request_image gen init prompt st))
       = Suc (anchor_selections (trace st))"
  by (simp add: request_image_def Let_def anchor_selections_append split: option.splits)

lemma run_engine_anchored:
  "style_anchor st = Some a \<Longrightarrow>
   run_engine gen init (map RequestImage ps) st
     = st\<lparr>trace := trace st @ map (conditioned_call gen a) ps\<rparr>"
proof (induction ps arbitrary: st)
  case Nil
  then show ?case by simp
next
  case (Cons p ps)
  from Cons.prems have "style_anchor (request_image gen init p st) = Some a"
    by (simp add: request_image_anchored)
  from Cons.IH [OF this] Cons.prems show ?case
    by (simp add: request_image_anchored)
qed

lemma run_engine_selections:
  "anchor_selections (trace (run_engine gen init acts st))
   \<le> anchor_selections (trace st) + restyles acts
       + (case style_anchor st of None \<Rightarrow> 1 | Some a \<Rightarrow> 0)"
proof (induction acts arbitrary: st)
  case Nil
  show ?case by simp
next
  case (Cons act acts)
  show ?case
  proof (cases act)
    case (RequestImage prompt)
    show ?thesis
    proof (cases "style_anchor st")
      case None
      from request_image_selects [OF None, of gen init prompt]
      obtain a where a: "style_anchor (request_image gen init prompt st) = Some a"
        and n: "anchor_selections (trace (request_image gen init prompt st))
                 = Suc (anchor_selections (trace st))"
        by blast
      from Cons.IH [of "request_image gen init prompt st"] a n None RequestImage
      show ?thesis by simp
    next
      case (Some a)
      from Cons.IH [of "request_image gen init prompt st"] Some RequestImage
      show ?thesis
        by (simp add: request_image_anchored anchor_selections_append conditioned_call_def)
    qed
  next
    case Restyle
    from Cons.IH [of "restyle st"] Restyle show ?thesis
      by (simp add: restyle_def anchor_selections_append split: option.splits)
  qed
qed

text \<open>
  C2. In a session of image requests the anchor is selected by the first request and by
  no other: the trace holds one selection, none when no image was requested. Every
  later call is conditioned on the anchor the first request set, which is the anchor of
  the session at its end. With restyle actions among the requests there is at most one
  more selection for each of them: a request that finds an anchor keeps it and only
  adds its conditioned call, and a restyle clears the anchor, so that the next request
  selects again.
\<close>

theorem single_anchor_per_session:
  "anchor_selections (trace (run_engine gen init (map RequestImage ps) new_engine))
     = (if ps = [] then 0 else 1)
   \<and> (\<forall>p rest. ps = p # rest \<longrightarrow>
        (\<exists>a. style_anchor (request_image gen init p new_engine) = Some a
           \<and> style_anchor (run_engine gen init (map RequestImage ps) new_engine) = Some a
           \<and> trace (run_engine gen init (map RequestImage ps) new_engine)
               = trace (request_image gen init p new_engine)
                 @ map (conditioned_call gen a) rest))
   \<and> anchor_selections (trace (run_engine gen init acts new_engine)) \<le> 1 + restyles acts
   \<and> (style_anchor st = Some b \<longrightarrow>
        request_image gen init prompt st
          = st\<lparr>trace := trace st @ [conditioned_call gen b prompt]\<rparr>)
   \<and> style_anchor (restyle st) = None
   \<and> (\<exists>a. style_anchor (request_image gen init prompt (restyle st)) = Some a)"
proof -
  have fresh: "style_anchor new_engine = None" "trace new_engine = []"
    by (simp_all add: new_engine_def)
  have first: "\<exists>a. style_anchor (request_image gen init p new_engine) = Some a
      \<and> style_anchor (run_engine gen init (map RequestImage (p # rest)) new_engine) = Some a
      \<and> trace (run_engine gen init (map RequestImage (p # rest)) new_engine)
          = trace (request_image gen init p new_engine) @ map (conditioned_call gen a) rest
      \<and> anchor_selections (trace (run_engine gen init (map RequestImage (p # rest)) new_engine))
          = 1"
    for p rest
  proof -
    from request_image_selects [OF fresh(1), of gen init p]
    obtain a where a: "style_anchor (request_image gen init p new_engine) = Some a"
      and n: "anchor_selections (trace (request_image gen init p new_engine)) = 1"
      by (auto simp: fresh)
    from run_engine_anchored [OF a, of gen init rest] a n show ?thesis
      by (simp add: anchor_selections_append anchor_selections_conditioned)
  qed
  have count: "anchor_selections (trace (run_engine gen init (map RequestImage ps) new_engine))
      = (if ps = [] then 0 else 1)"
  proof (cases ps)
    case Nil
    then show ?thesis by (simp add: fresh)
  next
    case (Cons p rest)
    with first [of p rest] show ?thesis by auto
  qed
  have bound: "anchor_selections (trace (run_engine gen init acts new_engine)) \<le> 1 + restyles acts"
    using run_engine_selections [of gen init acts new_engine] by (simp add: fresh)
  have again: "\<exists>a. style_anchor (request_image gen init prompt (restyle st)) = Some a"
    using request_image_selects [of "restyle st" gen init prompt] by (simp add: restyle_def)
  from first count bound again show ?thesis
    by (auto simp: request_image_anchored restyle_def)
qed

text \<open>
  The scenario of the spec: five image requests and no explicit style. The first request
  creates the fallback anchor, the four others are conditioned on it.
\<close>

definition numbering_port :: port where
  "numbering_port prompt reference = length prompt + (case reference of None \<Rightarrow> 0 | Some r \<Rightarrow> 100)"

definition no_style :: engine_setup where
  "no_style = \<lparr>prior_anchor = None, style_definition = None\<rparr>"

definition five_slides :: "string list" where
  "five_slides = [''a'', ''bb'', ''ccc'', ''dddd'', ''eeeee'']"

theorem single_anchor_per_session_witness:
  "five_slides = ''a'' # tl five_slides
   \<and> anchor_selections (trace (run_engine numbering_port no_style (map RequestImage five_slides)
        new_engine)) = 1
   \<and> trace (run_engine numbering_port no_style (map RequestImage five_slides) new_engine)
       = [PortCall ''a'' None 1,
          AnchorSelected \<lparr>image_bytes_ref = 1, origin = first_slide_fallback\<rparr>,
          PortCall ''bb'' (Some 1) 102, PortCall ''ccc'' (Some 1) 103,
          PortCall ''dddd'' (Some 1) 104, PortCall ''eeeee'' (Some 1) 105]
   \<and> style_anchor (run_engine numbering_port no_style (map RequestImage five_slides) new_engine)
       = Some \<lparr>image_bytes_ref = 1, origin = first_slide_fallback\<rparr>"
  using single_anchor_per_session [of numbering_port no_style five_slides "[]"
      "request_image numbering_port no_style ''a'' new_engine"
      "\<lparr>image_bytes_ref = 1, origin = first_slide_fallback\<rparr>" "''bb''"]
  by (simp add: five_slides_def no_style_def numbering_port_def new_engine_def request_image_def
      Let_def conditioned_call_def restyle_def)

section \<open>The Supervisor (spec, sections 3, 4.1, 6 and 7)\<close>

text \<open>
  The Supervisor is a node of the back end's graph (\<open>src/graph/nodes.py\<close>), which is not
  among the sources: only the README and the test report that describe it are. This
  section follows the words of the specification.
\<close>

text \<open>Modelled from the spec: a \<open>Step\<close> of a plan (section 3). The role is the key of the dispatch table.\<close>

record step =
  step_id :: nat
  step_role :: string
  instruction :: string
  description :: string
  design_direction :: "string option"

text \<open>Modelled from the spec: the \<open>type\<close> enumeration of an \<open>Artifact\<close> (section 3).\<close>

datatype artifact_kind = K_outline | K_image | K_report | K_plan

text \<open>
  Modelled from the spec: the candidate artifact a producer returns to Dispatch
  (section 4.2). It has no version yet: the Supervisor assigns one when it commits.
\<close>

record candidate =
  cand_id :: string
  cand_kind :: artifact_kind
  cand_title :: string
  cand_content :: string

text \<open>Modelled from the spec: a committed \<open>Artifact\<close> (section 3), \<open>version\<close> at least 1.\<close>

record committed =
  com_id :: string
  com_kind :: artifact_kind
  com_title :: string
  com_content :: string
  com_version :: nat

text \<open>
  Modelled from the spec: \<open>ReviewOutput\<close> (sections 3 and 4.4). The score is telemetry
  the Supervisor never inspects and is left out.
\<close>

record review_output =
  approved :: bool
  feedback :: string

text \<open>
  Modelled from the spec: what the collaborators answer in one round of section 4.1, the
  candidate of Dispatch with the verdict of the Reviewer on it, or a transport-level
  failure that outlasted its bounded retries.
\<close>

datatype response = Reviewed candidate review_output | Unavailable

text \<open>
  Modelled from the spec: the causes of a FAILED session (section 7). A rejection run
  that can be answered by no replanning is a \<open>ReplanExhaustedError\<close>, or a
  \<open>QualityRejection\<close> when replanning is switched off; each names the offending step.
\<close>

datatype cause =
  TransientInvocationError nat
  | QualityRejection nat
  | ReplanExhaustedError nat

text \<open>Modelled from the spec: the lifecycle events of section 6.\<close>

datatype state_event =
  step_started nat
  | step_approved nat string nat
  | step_rejected nat nat string
  | replanning nat
  | session_done
  | session_failed cause

text \<open>
  Modelled from the spec: where a session stands between two rounds of the control loop
  (section 4.1): running, or in one of the terminal states.
\<close>

datatype phase = RUNNING | DONE | FAILED cause

text \<open>
  Modelled from the spec: the recognized options of section 6 that the control loop
  reads. \<open>step_timeout\<close> is a duration of real time and has no part in the model.
\<close>

record config =
  max_retries :: nat
  replan_enabled :: bool

text \<open>Modelled from the spec: the defaults of section 6.\<close>

definition default_config :: config where
  "default_config = \<lparr>max_retries = 3, replan_enabled = True\<rparr>"

text \<open>
  Modelled from the spec: \<open>SessionState\<close> (section 3). A step id that \<open>retry_count\<close> has
  not met counts 0. \<open>replanned\<close> holds the step ids that had their replanning event,
  \<open>after_replan\<close> says that no step was approved since the last replanning, and
  \<open>feedback_context\<close> is the feedback handed to the worker with the next dispatch of the
  current step. The anchor of the session is the state of the Consistency Engine above.
\<close>

record session_state =
  plan :: "step list"
  current_step_index :: nat
  committed_artifacts :: "string \<rightharpoonup> committed"
  retry_count :: "nat \<Rightarrow> nat"
  replanned :: "nat set"
  after_replan :: bool
  feedback_context :: "string list"
  history :: "state_event list"
  session_phase :: phase

text \<open>
  Modelled from the spec: the Planner collaborator asked for a new partial plan, scoped
  to the failing step and told the feedback of its rejections (section 4.1). It is a
  black box to the Supervisor.
\<close>

type_synonym planner = "step \<Rightarrow> string list \<Rightarrow> step list"

text \<open>
  Modelled from the spec: plan ingestion (sections 3 and 6). A plan is rejected when it
  is empty, when its step ids are not strictly increasing, or when a role is not in the
  dispatch table.
\<close>

definition valid_plan :: "string list \<Rightarrow> step list \<Rightarrow> bool" where
  "valid_plan roles p \<longleftrightarrow>
     p \<noteq> [] \<and> sorted_wrt (<) (map step_id p) \<and> list_all (\<lambda>st. step_role st \<in> set roles) p"

text \<open>Modelled from the spec: the session state created when a session begins (section 3).\<close>

definition new_session :: "step list \<Rightarrow> session_state" where
  "new_session p =
     \<lparr>plan = p, current_step_index = 0, committed_artifacts = Map.empty,
      retry_count = (\<lambda>i. 0), replanned = {}, after_replan = False, feedback_context = [],
      history = [], session_phase = RUNNING\<rparr>"

text \<open>
  Modelled from the spec: committing a candidate (section 4.1) assigns version 1, or the
  next version when an artifact with that id exists.
\<close>

definition commit :: "candidate \<Rightarrow> (string \<rightharpoonup> committed) \<Rightarrow> committed" where
  "commit c arts =
     \<lparr>com_id = cand_id c, com_kind = cand_kind c, com_title = cand_title c,
      com_content = cand_content c,
      com_version = (case arts (cand_id c) of None \<Rightarrow> 1 | Some old \<Rightarrow> com_version old + 1)\<rparr>"

text \<open>
  Modelled from the spec: the transition to DONE (section 4.1), its event attached to the
  history.
\<close>

definition finish :: "session_state \<Rightarrow> session_state" where
  "finish s = s\<lparr>history := history s @ [session_done], session_phase := DONE\<rparr>"

text \<open>
  Modelled from the spec: the transition to FAILED with its cause (section 7), attached
  to the history before it surfaces.
\<close>

definition fail :: "cause \<Rightarrow> session_state \<Rightarrow> session_state" where
  "fail c s = s\<lparr>history := history s @ [session_failed c], session_phase := FAILED c\<rparr>"

text \<open>
  Modelled from the spec: the policy of section 4.1 on the answer to the dispatch of the
  step \<open>st\<close>. Approval commits the candidate, resets the retry counter of the step and
  moves to the next step. Rejection increments the counter; below \<open>max_retries\<close> the same
  step is dispatched again with the feedback appended; at \<open>max_retries\<close> the unexecuted
  tail of the plan, the failing step first, is replaced by what the Planner returns. A
  step id has one replanning event at most, and a rejection run that is exhausted with
  no approval since the last replanning fails the session.
\<close>

definition review ::
  "config \<Rightarrow> planner \<Rightarrow> step \<Rightarrow> candidate \<Rightarrow> review_output \<Rightarrow> session_state \<Rightarrow> session_state" where
  "review cfg pl st c ro s =
     (let i = step_id st in
      if approved ro then
        (let a = commit c (committed_artifacts s) in
         s\<lparr>committed_artifacts := (committed_artifacts s)(cand_id c \<mapsto> a),
           retry_count := (retry_count s)(i := 0),
           current_step_index := current_step_index s + 1,
           after_replan := False,
           feedback_context := [],
           history := history s @ [step_approved i (cand_id c) (com_version a)]\<rparr>)
      else
        (let n = retry_count s i + 1;
             s1 = s\<lparr>retry_count := (retry_count s)(i := n),
                    feedback_context := feedback_context s @ [feedback ro],
                    history := history s @ [step_rejected i n (feedback ro)]\<rparr>
         in
         if n < max_retries cfg then s1
         else if \<not> replan_enabled cfg then fail (QualityRejection i) s1
         else if i \<in> replanned s \<or> after_replan s then fail (ReplanExhaustedError i) s1
         else
           s1\<lparr>plan := take (current_step_index s) (plan s) @ pl st (feedback_context s1),
              replanned := insert i (replanned s),
              after_replan := True,
              feedback_context := [],
              history := history s1 @ [replanning i]\<rparr>))"

text \<open>
  Modelled from the spec: \<open>advance(session)\<close> (section 4.1). Beyond the end of the plan the
  session is DONE; otherwise the step at the index is dispatched and the answer of the
  collaborators decides.
\<close>

definition advance :: "config \<Rightarrow> planner \<Rightarrow> response \<Rightarrow> session_state \<Rightarrow> session_state" where
  "advance cfg pl r s =
     (if length (plan s) \<le> current_step_index s then finish s
      else
        (let st = plan s ! current_step_index s;
             s1 = s\<lparr>history := history s @ [step_started (step_id st)]\<rparr>
         in case r of
              Unavailable \<Rightarrow> fail (TransientInvocationError (step_id st)) s1
            | Reviewed c ro \<Rightarrow> review cfg pl st c ro s1))"

text \<open>
  Modelled from the spec: the control loop of section 5 along the answers of the
  collaborators, one for each dispatch. It stops in a terminal state; when the answers
  run out before that, the session is still running.
\<close>

fun supervise :: "config \<Rightarrow> planner \<Rightarrow> response list \<Rightarrow> session_state \<Rightarrow> session_state" where
  "supervise cfg pl [] s =
     (if session_phase s = RUNNING \<and> length (plan s) \<le> current_step_index s then finish s
      else s)"
| "supervise cfg pl (r # rs) s =
     (if session_phase s \<noteq> RUNNING then s else supervise cfg pl rs (advance cfg pl r s))"

text \<open>Modelled from the spec: the steps a history visited, by its \<open>step_started\<close> events (section 6).\<close>

fun visited :: "state_event list \<Rightarrow> nat list" where
  "visited [] = []"
| "visited (step_started i # es) = i # visited es"
| "visited (e # es) = visited es"

text \<open>Modelled from the spec: the number of \<open>replanning\<close> events a history holds for a step id.\<close>

fun replannings :: "nat \<Rightarrow> state_event list \<Rightarrow> nat" where
  "replannings i [] = 0"
| "replannings i (replanning j # es) = (if i = j then Suc (replannings i es) else replannings i es)"
| "replannings i (e # es) = replannings i es"

text \<open>Modelled from the spec: the verdict \<open>approved = true\<close> of the Reviewer (section 4.4).\<close>

definition approve :: review_output where
  "approve = \<lparr>approved = True, feedback = []\<rparr>"

text \<open>Modelled from the spec: the verdict \<open>approved = false\<close> with its feedback text.\<close>

definition reject :: "string \<Rightarrow> review_output" where
  "reject f = \<lparr>approved = False, feedback = f\<rparr>"

text \<open>Modelled from the spec: the answer of a round is an approval of the Reviewer.\<close>

fun is_approval :: "response \<Rightarrow> bool" where
  "is_approval (Reviewed c ro) = approved ro"
| "is_approval Unavailable = False"

text \<open>Modelled from the spec: the candidate artifact an answer carries, if any.\<close>

fun candidate_of :: "response \<Rightarrow> candidate option" where
  "candidate_of (Reviewed c ro) = Some c"
| "candidate_of Unavailable = None"

section \<open>Properties of the Supervisor\<close>

subsection \<open>A run of approvals\<close>

text \<open>
  The candidates a list of answers carries, a candidate committed at version 1, and the
  two events of a step that is approved at its first dispatch.
\<close>

definition candidates :: "response list \<Rightarrow> candidate list" where
  "candidates rs = List.map_filter candidate_of rs"

definition first_commit :: "candidate \<Rightarrow> committed" where
  "first_commit c =
     \<lparr>com_id = cand_id c, com_kind = cand_kind c, com_title = cand_title c,
      com_content = cand_content c, com_version = 1\<rparr>"

definition approval_events :: "step \<times> candidate \<Rightarrow> state_event list" where
  "approval_events x =
     [step_started (step_id (fst x)), step_approved (step_id (fst x)) (cand_id (snd x)) 1]"

lemma candidates_Cons [simp]: "candidates (Reviewed c ro # rs) = c # candidates rs"
  by (simp add: candidates_def List.map_filter_simps)

lemma candidates_Nil [simp]: "candidates [] = []"
  by (simp add: candidates_def List.map_filter_simps)

lemma length_candidates: "list_all is_approval rs \<Longrightarrow> length (candidates rs) = length rs"
proof (induction rs)
  case Nil
  show ?case by simp
next
  case (Cons r rs)
  then show ?case by (cases r) auto
qed

lemma visited_append: "visited (xs @ ys) = visited xs @ visited ys"
  by (induction xs rule: visited.induct) simp_all

lemma visited_approvals:
  "length cs = length sts \<Longrightarrow>
   visited (concat (map approval_events (zip sts cs))) = map step_id sts"
proof (induction sts arbitrary: cs)
  case Nil
  then show ?case by simp
next
  case (Cons st sts)
  then obtain c cs' where "cs = c # cs'" by (cases cs) auto
  with Cons show ?case by (simp add: approval_events_def)
qed

lemma commit_fresh: "arts (cand_id c) = None \<Longrightarrow> commit c arts = first_commit c"
  by (simp add: commit_def first_commit_def)

lemma advance_approved:
  assumes "current_step_index s < length (plan s)" "approved ro"
    "committed_artifacts s (cand_id c) = None"
  shows "advance cfg pl (Reviewed c ro) s =
     s\<lparr>history := history s @ approval_events (plan s ! current_step_index s, c),
       committed_artifacts := (committed_artifacts s)(cand_id c \<mapsto> first_commit c),
       retry_count := (retry_count s)(step_id (plan s ! current_step_index s) := 0),
       current_step_index := Suc (current_step_index s),
       after_replan := False,
       feedback_context := []\<rparr>"
  using assms
  by (simp add: advance_def review_def Let_def commit_fresh approval_events_def
      first_commit_def)

lemma run_approvals:
  assumes "session_phase s = RUNNING" "list_all is_approval rs"
    "current_step_index s + length rs = length (plan s)"
    "distinct (map cand_id (candidates rs))"
    "\<forall>c \<in> set (candidates rs). committed_artifacts s (cand_id c) = None"
  shows "session_phase (supervise cfg pl rs s) = DONE
    \<and> current_step_index (supervise cfg pl rs s) = length (plan s)
    \<and> plan (supervise cfg pl rs s) = plan s
    \<and> history (supervise cfg pl rs s)
        = history s
          @ concat (map approval_events (zip (drop (current_step_index s) (plan s)) (candidates rs)))
          @ [session_done]
    \<and> (\<forall>k. k \<notin> cand_id ` set (candidates rs) \<longrightarrow>
          committed_artifacts (supervise cfg pl rs s) k = committed_artifacts s k)
    \<and> (\<forall>c \<in> set (candidates rs).
          committed_artifacts (supervise cfg pl rs s) (cand_id c) = Some (first_commit c))"
  using assms
proof (induction rs arbitrary: s)
  case Nil
  then show ?case by (simp add: finish_def)
next
  case (Cons r rs)
  from Cons.prems(2) obtain c ro where r: "r = Reviewed c ro" and ok: "approved ro"
    by (cases r) auto
  let ?i = "current_step_index s"
  from Cons.prems(3) have lt: "?i < length (plan s)" by simp
  from Cons.prems(5) r have new: "committed_artifacts s (cand_id c) = None" by simp
  let ?s1 = "advance cfg pl r s"
  have s1: "?s1 = s\<lparr>history := history s @ approval_events (plan s ! ?i, c),
       committed_artifacts := (committed_artifacts s)(cand_id c \<mapsto> first_commit c),
       retry_count := (retry_count s)(step_id (plan s ! ?i) := 0),
       current_step_index := Suc ?i,
       after_replan := False,
       feedback_context := []\<rparr>"
    using advance_approved [OF lt ok new] r by simp
  have p1: "session_phase ?s1 = RUNNING" using s1 Cons.prems(1) by simp
  have p2: "list_all is_approval rs" using Cons.prems(2) by simp
  have p3: "current_step_index ?s1 + length rs = length (plan ?s1)"
    using s1 Cons.prems(3) by simp
  have p4: "distinct (map cand_id (candidates rs))" using Cons.prems(4) r by simp
  have other: "cand_id c \<notin> cand_id ` set (candidates rs)"
    using Cons.prems(4) r by auto
  have p5: "\<forall>d \<in> set (candidates rs). committed_artifacts ?s1 (cand_id d) = None"
  proof
    fix d assume d: "d \<in> set (candidates rs)"
    with other have "cand_id d \<noteq> cand_id c" by (metis image_eqI)
    moreover from d Cons.prems(5) r have "committed_artifacts s (cand_id d) = None" by simp
    ultimately show "committed_artifacts ?s1 (cand_id d) = None" using s1 by simp
  qed
  note IH = Cons.IH [OF p1 p2 p3 p4 p5]
  have run: "supervise cfg pl (r # rs) s = supervise cfg pl rs ?s1"
    using Cons.prems(1) by simp
  have dr: "drop ?i (plan s) = plan s ! ?i # drop (Suc ?i) (plan s)"
    using lt by (simp add: Cons_nth_drop_Suc)
  have f1: "plan ?s1 = plan s" "current_step_index ?s1 = Suc ?i"
    "history ?s1 = history s @ approval_events (plan s ! ?i, c)"
    "committed_artifacts ?s1 = (committed_artifacts s)(cand_id c \<mapsto> first_commit c)"
    using s1 by simp_all
  have h: "history (supervise cfg pl (r # rs) s)
        = history s
          @ concat (map approval_events (zip (drop ?i (plan s)) (candidates (r # rs))))
          @ [session_done]"
    using IH f1 run r dr by simp
  have fr: "\<forall>k. k \<notin> cand_id ` set (candidates (r # rs)) \<longrightarrow>
          committed_artifacts (supervise cfg pl (r # rs) s) k = committed_artifacts s k"
    using IH f1 run r by simp
  have cm: "\<forall>d \<in> set (candidates (r # rs)).
          committed_artifacts (supervise cfg pl (r # rs) s) (cand_id d) = Some (first_commit d)"
    using IH f1 run r other by simp
  from IH f1 run h fr cm show ?case by simp
qed

lemma new_session_fields:
  "plan (new_session p) = p" "current_step_index (new_session p) = 0"
  "committed_artifacts (new_session p) = Map.empty" "history (new_session p) = []"
  "session_phase (new_session p) = RUNNING" "replanned (new_session p) = {}"
  "retry_count (new_session p) = (\<lambda>i. 0)" "after_replan (new_session p) = False"
  by (simp_all add: new_session_def)

text \<open>
  C4, as the model has it. When each of the \<open>N\<close> steps of a plan is answered by an
  approval and the candidates carry pairwise distinct artifact ids, the session ends in
  DONE, the steps were visited once each in the order of the plan (ascending ids for a
  plan that passed ingestion), and the store holds \<open>N\<close> artifacts, each at version 1.
\<close>

theorem all_approved_reaches_DONE:
  assumes "length rs = length p" "list_all is_approval rs"
    "distinct (map cand_id (candidates rs))"
  shows "session_phase (supervise cfg pl rs (new_session p)) = DONE
    \<and> visited (history (supervise cfg pl rs (new_session p))) = map step_id p
    \<and> history (supervise cfg pl rs (new_session p))
        = concat (map approval_events (zip p (candidates rs))) @ [session_done]
    \<and> dom (committed_artifacts (supervise cfg pl rs (new_session p)))
        = cand_id ` set (candidates rs)
    \<and> card (dom (committed_artifacts (supervise cfg pl rs (new_session p)))) = length p
    \<and> (\<forall>c \<in> set (candidates rs).
          committed_artifacts (supervise cfg pl rs (new_session p)) (cand_id c)
            = Some (first_commit c))
    \<and> (\<forall>a \<in> ran (committed_artifacts (supervise cfg pl rs (new_session p))).
          com_version a = 1)
    \<and> (valid_plan roles p \<longrightarrow>
          sorted_wrt (<) (visited (history (supervise cfg pl rs (new_session p)))))"
proof -
  let ?s = "supervise cfg pl rs (new_session p)"
  have len: "length (candidates rs) = length p"
    using assms(1,2) by (simp add: length_candidates)
  have r: "session_phase ?s = DONE
    \<and> current_step_index ?s = length (plan (new_session p))
    \<and> plan ?s = plan (new_session p)
    \<and> history ?s
        = history (new_session p)
          @ concat (map approval_events
              (zip (drop (current_step_index (new_session p)) (plan (new_session p)))
                 (candidates rs)))
          @ [session_done]
    \<and> (\<forall>k. k \<notin> cand_id ` set (candidates rs) \<longrightarrow>
          committed_artifacts ?s k = committed_artifacts (new_session p) k)
    \<and> (\<forall>c \<in> set (candidates rs). committed_artifacts ?s (cand_id c) = Some (first_commit c))"
    by (rule run_approvals) (use assms in \<open>simp_all add: new_session_fields\<close>)
  then have ph: "session_phase ?s = DONE"
    and h: "history ?s = concat (map approval_events (zip p (candidates rs))) @ [session_done]"
    and fr: "\<And>k. k \<notin> cand_id ` set (candidates rs) \<Longrightarrow> committed_artifacts ?s k = None"
    and cm: "\<And>c. c \<in> set (candidates rs) \<Longrightarrow>
               committed_artifacts ?s (cand_id c) = Some (first_commit c)"
    by (simp_all add: new_session_fields)
  have v: "visited (history ?s) = map step_id p"
    using h len by (simp add: visited_append visited_approvals)
  have d: "dom (committed_artifacts ?s) = cand_id ` set (candidates rs)"
  proof
    show "dom (committed_artifacts ?s) \<subseteq> cand_id ` set (candidates rs)"
    proof
      fix k assume "k \<in> dom (committed_artifacts ?s)"
      then have "committed_artifacts ?s k \<noteq> None" by (simp add: dom_def)
      with fr [of k] show "k \<in> cand_id ` set (candidates rs)" by blast
    qed
    show "cand_id ` set (candidates rs) \<subseteq> dom (committed_artifacts ?s)"
      using cm by (auto simp: dom_def)
  qed
  have "card (cand_id ` set (candidates rs)) = length (candidates rs)"
    using assms(3) distinct_card [of "map cand_id (candidates rs)"] by simp
  with d len have c: "card (dom (committed_artifacts ?s)) = length p" by simp
  have one: "com_version a = 1" if "a \<in> ran (committed_artifacts ?s)" for a
  proof -
    from that obtain k where k: "committed_artifacts ?s k = Some a"
      by (auto simp: ran_def)
    with fr [of k] have "k \<in> cand_id ` set (candidates rs)" by fastforce
    then obtain c where "c \<in> set (candidates rs)" "k = cand_id c" by auto
    with cm k have "a = first_commit c" by simp
    then show ?thesis by (simp add: first_commit_def)
  qed
  have s: "sorted_wrt (<) (visited (history ?s))" if "valid_plan roles p"
    using that v by (simp add: valid_plan_def)
  from ph v h d c cm one s show ?thesis by blast
qed

subsection \<open>A plan of two steps\<close>

definition write_step :: step where
  "write_step = \<lparr>step_id = 1, step_role = ''storywriter'', instruction = ''Draft the slides'',
      description = ''Outline'', design_direction = None\<rparr>"

definition draw_step :: step where
  "draw_step = \<lparr>step_id = 2, step_role = ''visualizer'', instruction = ''Render the slides'',
      description = ''Images'', design_direction = Some ''flat, blue''\<rparr>"

definition outline_candidate :: candidate where
  "outline_candidate = \<lparr>cand_id = ''outline'', cand_kind = K_outline, cand_title = ''Outline'',
      cand_content = ''1. Intro''\<rparr>"

definition slides_candidate :: candidate where
  "slides_candidate = \<lparr>cand_id = ''slides'', cand_kind = K_image, cand_title = ''Slides'',
      cand_content = ''slide-1.png''\<rparr>"

definition same_planner :: planner where
  "same_planner st fb = [st]"

theorem all_approved_reaches_DONE_witness:
  "length [Reviewed outline_candidate approve, Reviewed slides_candidate approve]
     = length [write_step, draw_step]
   \<and> list_all is_approval [Reviewed outline_candidate approve, Reviewed slides_candidate approve]
   \<and> distinct (map cand_id
        (candidates [Reviewed outline_candidate approve, Reviewed slides_candidate approve]))
   \<and> valid_plan [''storywriter'', ''visualizer''] [write_step, draw_step]
   \<and> session_phase (supervise default_config same_planner
        [Reviewed outline_candidate approve, Reviewed slides_candidate approve]
        (new_session [write_step, draw_step])) = DONE
   \<and> visited (history (supervise default_config same_planner
        [Reviewed outline_candidate approve, Reviewed slides_candidate approve]
        (new_session [write_step, draw_step]))) = [1, 2]
   \<and> card (dom (committed_artifacts (supervise default_config same_planner
        [Reviewed outline_candidate approve, Reviewed slides_candidate approve]
        (new_session [write_step, draw_step])))) = 2"
  using all_approved_reaches_DONE
    [of "[Reviewed outline_candidate approve, Reviewed slides_candidate approve]"
      "[write_step, draw_step]" default_config same_planner "[''storywriter'', ''visualizer'']"]
  by (simp add: approve_def outline_candidate_def slides_candidate_def write_step_def
      draw_step_def valid_plan_def new_session_def advance_def review_def commit_def
      finish_def Let_def approval_events_def first_commit_def)

text \<open>
  C4 as stated fails: when the workers of both steps return a candidate with the same
  artifact id, both are approved and the session is DONE, with one artifact at version 2.
\<close>

theorem shared_artifact_id_counterexample:
  "length [Reviewed outline_candidate approve, Reviewed outline_candidate approve]
     = length [write_step, draw_step]
   \<and> list_all is_approval [Reviewed outline_candidate approve, Reviewed outline_candidate approve]
   \<and> session_phase (supervise default_config same_planner
        [Reviewed outline_candidate approve, Reviewed outline_candidate approve]
        (new_session [write_step, draw_step])) = DONE
   \<and> card (dom (committed_artifacts (supervise default_config same_planner
        [Reviewed outline_candidate approve, Reviewed outline_candidate approve]
        (new_session [write_step, draw_step])))) = 1
   \<and> map_option com_version (committed_artifacts (supervise default_config same_planner
        [Reviewed outline_candidate approve, Reviewed outline_candidate approve]
        (new_session [write_step, draw_step])) ''outline'') = Some 2"
  by (simp add: approve_def outline_candidate_def write_step_def draw_step_def new_session_def
      advance_def review_def commit_def finish_def Let_def)

text \<open>
  The scenario of section 8 of the spec: the second step is rejected twice, then
  approved.
\<close>

lemma spec_scenario:
  "history (supervise default_config same_planner
      [Reviewed outline_candidate approve,
       Reviewed slides_candidate (reject ''text contrast too low''),
       Reviewed slides_candidate (reject ''text contrast too low''),
       Reviewed slides_candidate approve]
      (new_session [write_step, draw_step]))
   = [step_started 1, step_approved 1 ''outline'' 1,
      step_started 2, step_rejected 2 1 ''text contrast too low'',
      step_started 2, step_rejected 2 2 ''text contrast too low'',
      step_started 2, step_approved 2 ''slides'' 1,
      session_done]"
  by (simp add: approve_def reject_def outline_candidate_def slides_candidate_def write_step_def
      draw_step_def new_session_def advance_def review_def commit_def finish_def Let_def
      default_config_def)

subsection \<open>Termination\<close>

text \<open>
  A Planner whose replacement tails have at most \<open>K\<close> steps, with ids in \<open>U\<close>, for a failing
  step with its id in \<open>U\<close>. The other definitions measure what is left of a session: a
  step takes \<open>round_width\<close> rounds at most before it is approved or its retries are
  exhausted, \<open>budget\<close> is what the current step has left of them, and \<open>potential\<close> adds the
  rounds of the steps still to come and those of the replannings still allowed.
\<close>

definition planner_within :: "nat set \<Rightarrow> nat \<Rightarrow> planner \<Rightarrow> bool" where
  "planner_within U K pl \<longleftrightarrow>
     (\<forall>st fb. step_id st \<in> U \<longrightarrow> length (pl st fb) \<le> K \<and> step_id ` set (pl st fb) \<subseteq> U)"

definition round_width :: "config \<Rightarrow> nat" where
  "round_width cfg = max 1 (max_retries cfg)"

definition budget :: "config \<Rightarrow> session_state \<Rightarrow> nat" where
  "budget cfg s =
     round_width cfg
     - min (retry_count s (step_id (plan s ! current_step_index s))) (round_width cfg - 1)"

definition remaining :: "config \<Rightarrow> session_state \<Rightarrow> nat" where
  "remaining cfg s =
     (if length (plan s) \<le> current_step_index s then 0
      else (length (plan s) - current_step_index s - 1) * round_width cfg + budget cfg s)"

definition potential :: "nat set \<Rightarrow> nat \<Rightarrow> config \<Rightarrow> session_state \<Rightarrow> nat" where
  "potential U K cfg s = card (U - replanned s) * (K * round_width cfg) + remaining cfg s"

definition rounds_bound :: "nat set \<Rightarrow> nat \<Rightarrow> config \<Rightarrow> step list \<Rightarrow> nat" where
  "rounds_bound U K cfg p = card U * (K * round_width cfg) + length p * round_width cfg"

definition tail_within :: "nat set \<Rightarrow> session_state \<Rightarrow> bool" where
  "tail_within U s \<longleftrightarrow> step_id ` set (drop (current_step_index s) (plan s)) \<subseteq> U"

lemma round_width_pos: "0 < round_width cfg"
  by (simp add: round_width_def)

lemma budget_bounds: "1 \<le> budget cfg s" "budget cfg s \<le> round_width cfg"
  using round_width_pos [of cfg] by (simp_all add: budget_def)

lemma remaining_le:
  "remaining cfg s \<le> (length (plan s) - current_step_index s) * round_width cfg"
proof (cases "length (plan s) \<le> current_step_index s")
  case True
  then show ?thesis by (simp add: remaining_def)
next
  case False
  then obtain m where m: "length (plan s) - current_step_index s = Suc m"
    by (cases "length (plan s) - current_step_index s") auto
  with False budget_bounds(2) [of cfg s] show ?thesis by (simp add: remaining_def)
qed

lemma remaining_running:
  "current_step_index s < length (plan s) \<Longrightarrow>
   remaining cfg s
     = (length (plan s) - Suc (current_step_index s)) * round_width cfg + budget cfg s"
  by (simp add: remaining_def)

lemma potential_new_session: "potential U K cfg (new_session p) \<le> rounds_bound U K cfg p"
proof -
  have "potential U K cfg (new_session p)
        \<le> card (U - replanned (new_session p)) * (K * round_width cfg)
          + (length (plan (new_session p)) - current_step_index (new_session p))
            * round_width cfg"
    unfolding potential_def using remaining_le [of cfg "new_session p"] by simp
  then show ?thesis
    by (simp add: rounds_bound_def new_session_fields)
qed

lemma supervise_terminal: "session_phase s \<noteq> RUNNING \<Longrightarrow> supervise cfg pl rs s = s"
  by (cases rs) simp_all

lemma potential_running_pos:
  "current_step_index s < length (plan s) \<Longrightarrow> 0 < potential U K cfg s"
  using budget_bounds(1) [of cfg s] by (simp add: potential_def remaining_def)


lemma current_step_in_tail:
  "current_step_index s < length (plan s) \<Longrightarrow>
   plan s ! current_step_index s \<in> set (drop (current_step_index s) (plan s))"
  by (metis Cons_nth_drop_Suc list.set_intros(1))

lemma advance_unavailable:
  "current_step_index s < length (plan s) \<Longrightarrow>
   session_phase (advance cfg pl Unavailable s)
     = FAILED (TransientInvocationError (step_id (plan s ! current_step_index s)))"
  by (simp add: advance_def fail_def Let_def)

lemma advance_approved_fields:
  assumes "current_step_index s < length (plan s)" "approved ro"
  shows "plan (advance cfg pl (Reviewed c ro) s) = plan s"
    "current_step_index (advance cfg pl (Reviewed c ro) s) = Suc (current_step_index s)"
    "replanned (advance cfg pl (Reviewed c ro) s) = replanned s"
    "session_phase (advance cfg pl (Reviewed c ro) s) = session_phase s"
    "history (advance cfg pl (Reviewed c ro) s)
       = history s @ [step_started (step_id (plan s ! current_step_index s)),
           step_approved (step_id (plan s ! current_step_index s)) (cand_id c)
             (com_version (commit c (committed_artifacts s)))]"
  using assms by (simp_all add: advance_def review_def Let_def)

lemma advance_retry_fields:
  assumes "current_step_index s < length (plan s)" "\<not> approved ro"
    "Suc (retry_count s (step_id (plan s ! current_step_index s))) < max_retries cfg"
  shows "plan (advance cfg pl (Reviewed c ro) s) = plan s"
    "current_step_index (advance cfg pl (Reviewed c ro) s) = current_step_index s"
    "replanned (advance cfg pl (Reviewed c ro) s) = replanned s"
    "session_phase (advance cfg pl (Reviewed c ro) s) = session_phase s"
    "retry_count (advance cfg pl (Reviewed c ro) s)
       = (retry_count s)(step_id (plan s ! current_step_index s)
           := Suc (retry_count s (step_id (plan s ! current_step_index s))))"
    "history (advance cfg pl (Reviewed c ro) s)
       = history s @ [step_started (step_id (plan s ! current_step_index s)),
           step_rejected (step_id (plan s ! current_step_index s))
             (Suc (retry_count s (step_id (plan s ! current_step_index s)))) (feedback ro)]"
  using assms by (simp_all add: advance_def review_def Let_def)

lemma advance_replan_fields:
  assumes "current_step_index s < length (plan s)" "\<not> approved ro"
    "\<not> Suc (retry_count s (step_id (plan s ! current_step_index s))) < max_retries cfg"
    "replan_enabled cfg" "step_id (plan s ! current_step_index s) \<notin> replanned s"
    "\<not> after_replan s"
  shows "plan (advance cfg pl (Reviewed c ro) s)
       = take (current_step_index s) (plan s)
         @ pl (plan s ! current_step_index s) (feedback_context s @ [feedback ro])"
    "current_step_index (advance cfg pl (Reviewed c ro) s) = current_step_index s"
    "replanned (advance cfg pl (Reviewed c ro) s)
       = insert (step_id (plan s ! current_step_index s)) (replanned s)"
    "session_phase (advance cfg pl (Reviewed c ro) s) = session_phase s"
    "history (advance cfg pl (Reviewed c ro) s)
       = history s @ [step_started (step_id (plan s ! current_step_index s)),
           step_rejected (step_id (plan s ! current_step_index s))
             (Suc (retry_count s (step_id (plan s ! current_step_index s)))) (feedback ro),
           replanning (step_id (plan s ! current_step_index s))]"
  using assms by (simp_all add: advance_def review_def Let_def)

lemma advance_exhausted_fails:
  assumes "current_step_index s < length (plan s)" "\<not> approved ro"
    "\<not> Suc (retry_count s (step_id (plan s ! current_step_index s))) < max_retries cfg"
    "\<not> replan_enabled cfg \<or> step_id (plan s ! current_step_index s) \<in> replanned s
     \<or> after_replan s"
  shows "session_phase (advance cfg pl (Reviewed c ro) s) \<noteq> RUNNING"
    "history (advance cfg pl (Reviewed c ro) s)
       = history s @ [step_started (step_id (plan s ! current_step_index s)),
           step_rejected (step_id (plan s ! current_step_index s))
             (Suc (retry_count s (step_id (plan s ! current_step_index s)))) (feedback ro),
           session_failed (if replan_enabled cfg
              then ReplanExhaustedError (step_id (plan s ! current_step_index s))
              else QualityRejection (step_id (plan s ! current_step_index s)))]"
    "replanned (advance cfg pl (Reviewed c ro) s) = replanned s"
  using assms by (auto simp: advance_def review_def Let_def fail_def)


lemma advance_decreases:
  assumes fin: "finite U" and pw: "planner_within U K pl" and tw: "tail_within U s"
    and lt: "current_step_index s < length (plan s)"
    and run: "session_phase (advance cfg pl r s) = RUNNING"
  shows "potential U K cfg (advance cfg pl r s) < potential U K cfg s
    \<and> tail_within U (advance cfg pl r s)"
proof (cases r)
  case Unavailable
  with advance_unavailable [OF lt, of cfg pl] run show ?thesis by simp
next
  case (Reviewed c ro)
  let ?s' = "advance cfg pl (Reviewed c ro) s"
  let ?st = "plan s ! current_step_index s"
  let ?W = "round_width cfg"
  have rem: "remaining cfg s
      = (length (plan s) - Suc (current_step_index s)) * ?W + budget cfg s"
    using lt by (rule remaining_running)
  have in_U: "step_id ?st \<in> U"
    using tw current_step_in_tail [OF lt] by (auto simp: tail_within_def)
  show ?thesis
  proof (cases "approved ro")
    case True
    note f = advance_approved_fields [OF lt True, of cfg pl c]
    have "remaining cfg ?s' \<le> (length (plan s) - Suc (current_step_index s)) * ?W"
      using remaining_le [of cfg ?s'] f by simp
    with rem budget_bounds(1) [of cfg s] have "remaining cfg ?s' < remaining cfg s" by simp
    then have "potential U K cfg ?s' < potential U K cfg s"
      using f by (simp add: potential_def)
    moreover have "tail_within U ?s'"
    proof -
      have "set (drop (Suc (current_step_index s)) (plan s))
            \<subseteq> set (drop (current_step_index s) (plan s))"
        by (rule set_drop_subset_set_drop) simp
      with tw f show ?thesis by (auto simp: tail_within_def)
    qed
    ultimately show ?thesis using Reviewed by simp
  next
    case False
    show ?thesis
    proof (cases "Suc (retry_count s (step_id ?st)) < max_retries cfg")
      case True
      note f = advance_retry_fields [OF lt False True, of pl c]
      from True have W: "?W = max_retries cfg" by (simp add: round_width_def)
      have b: "budget cfg ?s' < budget cfg s"
        using True W f by (simp add: budget_def)
      have "remaining cfg ?s'
          = (length (plan s) - Suc (current_step_index s)) * ?W + budget cfg ?s'"
        using remaining_running [of ?s' cfg] f lt by simp
      with rem b have "remaining cfg ?s' < remaining cfg s" by simp
      then have "potential U K cfg ?s' < potential U K cfg s"
        using f by (simp add: potential_def)
      moreover have "tail_within U ?s'"
        using tw f by (simp add: tail_within_def)
      ultimately show ?thesis using Reviewed by simp
    next
      case exhausted: False
      show ?thesis
      proof (cases "\<not> replan_enabled cfg \<or> step_id ?st \<in> replanned s \<or> after_replan s")
        case True
        from advance_exhausted_fails(1) [OF lt False exhausted True, of pl c] run Reviewed
        show ?thesis by simp
      next
        case can_replan: False
        then have e: "replan_enabled cfg" and n: "step_id ?st \<notin> replanned s"
          and a: "\<not> after_replan s" by simp_all
        note f = advance_replan_fields [OF lt False exhausted e n a, of pl c]
        let ?tail = "pl ?st (feedback_context s @ [feedback ro])"
        from pw in_U have tl: "length ?tail \<le> K" and tu: "step_id ` set ?tail \<subseteq> U"
          by (simp_all add: planner_within_def)
        have len': "length (plan ?s') - current_step_index ?s' = length ?tail"
          using f lt by simp
        have "remaining cfg ?s' \<le> length ?tail * ?W"
          using remaining_le [of cfg ?s'] len' by simp
        also have "\<dots> \<le> K * ?W" using tl by (rule mult_le_mono1)
        finally have r1: "remaining cfg ?s' \<le> K * ?W" .
        have eq: "U - insert (step_id ?st) (replanned s) = (U - replanned s) - {step_id ?st}"
          by auto
        have mem: "step_id ?st \<in> U - replanned s" using in_U n by simp
        have "finite (U - replanned s)" using fin by simp
        from card_Suc_Diff1 [OF this mem] eq
        have c: "Suc (card (U - insert (step_id ?st) (replanned s))) = card (U - replanned s)"
          by simp
        have "potential U K cfg ?s'
              \<le> card (U - insert (step_id ?st) (replanned s)) * (K * ?W) + K * ?W"
          using r1 f by (simp add: potential_def)
        also have "\<dots> = card (U - replanned s) * (K * ?W)"
          using c [symmetric] by simp
        also have "\<dots> < potential U K cfg s"
          using rem budget_bounds(1) [of cfg s] by (simp add: potential_def)
        finally have "potential U K cfg ?s' < potential U K cfg s" .
        moreover have "tail_within U ?s'"
          using tu f lt by (simp add: tail_within_def)
        ultimately show ?thesis using Reviewed by simp
      qed
    qed
  qed
qed

lemma supervise_terminates:
  assumes "finite U" "planner_within U K pl"
  shows "tail_within U s \<Longrightarrow> potential U K cfg s \<le> length rs \<Longrightarrow>
         session_phase (supervise cfg pl rs s) \<noteq> RUNNING"
proof (induction rs arbitrary: s)
  case Nil
  then have "\<not> current_step_index s < length (plan s)"
    using potential_running_pos [of s U K cfg] by auto
  then show ?case by (simp add: finish_def)
next
  case (Cons r rs)
  show ?case
  proof (cases "session_phase s = RUNNING")
    case False
    then show ?thesis by simp
  next
    case True
    show ?thesis
    proof (cases "session_phase (advance cfg pl r s) = RUNNING")
      case False
      with True show ?thesis by (simp add: supervise_terminal)
    next
      case run: True
      have lt: "current_step_index s < length (plan s)"
      proof (rule ccontr)
        assume "\<not> current_step_index s < length (plan s)"
        then have "advance cfg pl r s = finish s" by (simp add: advance_def)
        with run show False by (simp add: finish_def)
      qed
      from advance_decreases [OF assms Cons.prems(1) lt run] Cons.prems(2)
      have "potential U K cfg (advance cfg pl r s) \<le> length rs"
        and "tail_within U (advance cfg pl r s)" by simp_all
      from Cons.IH [OF this(2) this(1)] True show ?thesis by simp
    qed
  qed
qed

text \<open>The replanning events of a history are those of the step ids in \<open>replanned\<close>, one for each.\<close>

definition replanned_once :: "session_state \<Rightarrow> bool" where
  "replanned_once s \<longleftrightarrow>
     (\<forall>i. replannings i (history s) = (if i \<in> replanned s then 1 else 0))"

lemma replannings_append:
  "replannings i (xs @ ys) = replannings i xs + replannings i ys"
  by (induction i xs rule: replannings.induct) simp_all

lemma advance_replanned_once:
  assumes "replanned_once s"
  shows "replanned_once (advance cfg pl r s)"
proof (cases "current_step_index s < length (plan s)")
  case False
  with assms show ?thesis
    by (simp add: advance_def finish_def replanned_once_def replannings_append)
next
  case lt: True
  show ?thesis
  proof (cases r)
    case Unavailable
    with assms lt show ?thesis
      by (simp add: advance_def fail_def Let_def replanned_once_def replannings_append)
  next
    case (Reviewed c ro)
    let ?st = "plan s ! current_step_index s"
    show ?thesis
    proof (cases "approved ro")
      case True
      from advance_approved_fields(3,5) [OF lt True, of cfg pl c] assms Reviewed
      show ?thesis by (simp add: replanned_once_def replannings_append)
    next
      case False
      show ?thesis
      proof (cases "Suc (retry_count s (step_id ?st)) < max_retries cfg")
        case True
        from advance_retry_fields(3,6) [OF lt False True, of pl c] assms Reviewed
        show ?thesis by (simp add: replanned_once_def replannings_append)
      next
        case exhausted: False
        show ?thesis
        proof (cases "\<not> replan_enabled cfg \<or> step_id ?st \<in> replanned s \<or> after_replan s")
          case True
          from advance_exhausted_fails(2,3) [OF lt False exhausted True, of pl c] assms Reviewed
          show ?thesis by (simp add: replanned_once_def replannings_append)
        next
          case can_replan: False
          then have e: "replan_enabled cfg" and n: "step_id ?st \<notin> replanned s"
            and a: "\<not> after_replan s" by simp_all
          from advance_replan_fields(3,5) [OF lt False exhausted e n a, of pl c] assms n Reviewed
          show ?thesis by (simp add: replanned_once_def replannings_append)
        qed
      qed
    qed
  qed
qed

lemma supervise_replanned_once:
  "replanned_once s \<Longrightarrow> replanned_once (supervise cfg pl rs s)"
proof (induction rs arbitrary: s)
  case Nil
  then show ?case by (simp add: finish_def replanned_once_def replannings_append)
next
  case (Cons r rs)
  from Cons.IH [OF advance_replanned_once [OF Cons.prems]] Cons.prems show ?case by simp
qed

lemma new_session_replanned_once: "replanned_once (new_session p)"
  by (simp add: replanned_once_def new_session_fields)

subsection \<open>A Planner that adds a step\<close>

text \<open>A configuration with a single retry.\<close>

definition one_retry :: config where
  "one_retry = \<lparr>max_retries = 1, replan_enabled = True\<rparr>"

text \<open>
  This Planner answers with the failing step and one more step, under the next id. Each
  round of the Reviewer rejects a step three times, which exhausts the default retries
  and replans the tail, and then approves it.
\<close>

definition growing_planner :: planner where
  "growing_planner st fb = [st, st\<lparr>step_id := step_id st + 1\<rparr>]"

definition stubborn_round :: "response list" where
  "stubborn_round =
     [Reviewed outline_candidate (reject ''again''), Reviewed outline_candidate (reject ''again''),
      Reviewed outline_candidate (reject ''again''), Reviewed outline_candidate approve]"

text \<open>
  Where such a round starts: at a step that was never replanned, with no rejection
  counted, in a plan whose step ids increase.
\<close>

definition at_fresh_step :: "session_state \<Rightarrow> bool" where
  "at_fresh_step s \<longleftrightarrow>
     session_phase s = RUNNING \<and> current_step_index s < length (plan s)
     \<and> sorted_wrt (<) (map step_id (plan s))
     \<and> (\<forall>j \<in> replanned s. j < step_id (plan s ! current_step_index s))
     \<and> \<not> after_replan s \<and> (\<forall>j. retry_count s j = 0)"

lemma sorted_prefix_below:
  assumes "sorted_wrt (<) (map step_id p)" "k < length p"
  shows "sorted_wrt (<) (map step_id (take k p))"
    and "\<forall>x \<in> set (take k p). step_id x < step_id (p ! k)"
proof -
  have p: "p = take k p @ p ! k # drop (Suc k) p"
    using assms(2) by (simp add: id_take_nth_drop [symmetric])
  from assms(1) have "sorted_wrt (<) (map step_id (take k p @ p ! k # drop (Suc k) p))"
    using p by simp
  then show "sorted_wrt (<) (map step_id (take k p))"
    and "\<forall>x \<in> set (take k p). step_id x < step_id (p ! k)"
    by (auto simp: sorted_wrt_append)
qed

lemma advance_retry_more:
  assumes "current_step_index s < length (plan s)" "\<not> approved ro"
    "Suc (retry_count s (step_id (plan s ! current_step_index s))) < max_retries cfg"
  shows "after_replan (advance cfg pl (Reviewed c ro) s) = after_replan s"
  using assms by (simp add: advance_def review_def Let_def)

lemma advance_replan_more:
  assumes "current_step_index s < length (plan s)" "\<not> approved ro"
    "\<not> Suc (retry_count s (step_id (plan s ! current_step_index s))) < max_retries cfg"
    "replan_enabled cfg" "step_id (plan s ! current_step_index s) \<notin> replanned s"
    "\<not> after_replan s"
  shows "retry_count (advance cfg pl (Reviewed c ro) s)
       = (retry_count s)(step_id (plan s ! current_step_index s)
           := Suc (retry_count s (step_id (plan s ! current_step_index s))))"
  using assms by (simp add: advance_def review_def Let_def)

lemma advance_approved_more:
  assumes "current_step_index s < length (plan s)" "approved ro"
  shows "after_replan (advance cfg pl (Reviewed c ro) s) = False"
    "retry_count (advance cfg pl (Reviewed c ro) s)
       = (retry_count s)(step_id (plan s ! current_step_index s) := 0)"
  using assms by (simp_all add: advance_def review_def Let_def)

lemma stubborn_round_step:
  assumes "at_fresh_step s"
  shows "\<exists>s'. at_fresh_step s'
    \<and> supervise default_config growing_planner (stubborn_round @ rest) s
        = supervise default_config growing_planner rest s'"
proof -
  let ?cfg = default_config
  let ?pl = growing_planner
  let ?no = "Reviewed outline_candidate (reject ''again'')"
  let ?yes = "Reviewed outline_candidate approve"
  let ?k = "current_step_index s"
  let ?st = "plan s ! ?k"
  let ?i = "step_id ?st"
  from assms have run: "session_phase s = RUNNING" and lt: "?k < length (plan s)"
    and inc: "sorted_wrt (<) (map step_id (plan s))"
    and below: "\<forall>j \<in> replanned s. j < ?i" and na: "\<not> after_replan s"
    and zero: "\<forall>j. retry_count s j = 0"
    by (simp_all add: at_fresh_step_def)
  have M: "max_retries ?cfg = 3" "replan_enabled ?cfg" by (simp_all add: default_config_def)
  have no: "\<not> approved (reject ''again'')" and yes: "approved approve"
    by (simp_all add: reject_def approve_def)
  \<comment> \<open>first rejection\<close>
  let ?s1 = "advance ?cfg ?pl ?no s"
  have r1: "Suc (retry_count s ?i) < max_retries ?cfg" using zero M by simp
  note f1 = advance_retry_fields [OF lt no r1, of ?pl outline_candidate]
    advance_retry_more [OF lt no r1, of ?pl outline_candidate]
  have c1: "retry_count ?s1 ?i = 1" using f1 zero by simp
  have lt1: "current_step_index ?s1 < length (plan ?s1)" using f1 lt by simp
  have st1: "plan ?s1 ! current_step_index ?s1 = ?st" using f1 by simp
  \<comment> \<open>second rejection\<close>
  let ?s2 = "advance ?cfg ?pl ?no ?s1"
  have r2: "Suc (retry_count ?s1 (step_id (plan ?s1 ! current_step_index ?s1)))
            < max_retries ?cfg"
    using c1 st1 M by simp
  note f2 = advance_retry_fields [OF lt1 no r2, of ?pl outline_candidate]
    advance_retry_more [OF lt1 no r2, of ?pl outline_candidate]
  have c2: "retry_count ?s2 ?i = 2" using f2 c1 st1 by simp
  have lt2: "current_step_index ?s2 < length (plan ?s2)" using f2 lt1 by simp
  have st2: "plan ?s2 ! current_step_index ?s2 = ?st" using f2 st1 by simp
  have k2: "current_step_index ?s2 = ?k" "plan ?s2 = plan s" "replanned ?s2 = replanned s"
    "after_replan ?s2 = after_replan s" "session_phase ?s2 = RUNNING"
    using f1 f2 run by simp_all
  have rc2: "retry_count ?s2 = (retry_count s)(?i := 2)"
    using f1(5) f2(5) st1 c1 by (simp add: numeral_2_eq_2)
  \<comment> \<open>third rejection: the retries are exhausted, the tail is replanned\<close>
  let ?s3 = "advance ?cfg ?pl ?no ?s2"
  have r3: "\<not> Suc (retry_count ?s2 (step_id (plan ?s2 ! current_step_index ?s2)))
              < max_retries ?cfg"
    using c2 st2 M by simp
  have n3: "step_id (plan ?s2 ! current_step_index ?s2) \<notin> replanned ?s2"
    using below st2 k2 by auto
  have a3: "\<not> after_replan ?s2" using k2 na by simp
  note f3 = advance_replan_fields [OF lt2 no r3 M(2) n3 a3, of ?pl outline_candidate]
    advance_replan_more [OF lt2 no r3 M(2) n3 a3, of ?pl outline_candidate]
  have p3: "plan ?s3 = take ?k (plan s) @ [?st, ?st\<lparr>step_id := ?i + 1\<rparr>]"
    using f3(1) st2 k2 by (simp add: growing_planner_def)
  have k3: "current_step_index ?s3 = ?k" "replanned ?s3 = insert ?i (replanned s)"
    "session_phase ?s3 = RUNNING"
    using f3 k2 st2 by simp_all
  have tk: "length (take ?k (plan s)) = ?k" using lt by simp
  have lt3: "current_step_index ?s3 < length (plan ?s3)" using p3 k3 tk by simp
  have st3: "plan ?s3 ! current_step_index ?s3 = ?st"
    using p3 k3 tk by (simp add: nth_append)
  have rc3: "retry_count ?s3 = (retry_count s)(?i := 3)"
    using f3(6) rc2 st2 by (simp add: numeral_3_eq_3)
  \<comment> \<open>approval of the replanned step\<close>
  let ?s4 = "advance ?cfg ?pl ?yes ?s3"
  note f4 = advance_approved_fields [OF lt3 yes, of ?cfg ?pl outline_candidate]
    advance_approved_more [OF lt3 yes, of ?cfg ?pl outline_candidate]
  have k4: "current_step_index ?s4 = Suc ?k" "plan ?s4 = plan ?s3"
    "replanned ?s4 = insert ?i (replanned s)" "session_phase ?s4 = RUNNING"
    "\<not> after_replan ?s4"
    using f4 k3 by simp_all
  have rc4: "\<forall>j. retry_count ?s4 j = 0"
    using f4(7) rc3 st3 zero by simp
  have nx: "plan ?s4 ! current_step_index ?s4 = ?st\<lparr>step_id := ?i + 1\<rparr>"
    using k4 p3 tk by (simp add: nth_append)
  have inc4: "sorted_wrt (<) (map step_id (plan ?s4))"
    using k4(2) p3 sorted_prefix_below [OF inc lt] by (auto simp: sorted_wrt_append)
  have "at_fresh_step ?s4"
    unfolding at_fresh_step_def using k4 rc4 nx p3 tk below inc4 by auto
  moreover have "supervise ?cfg ?pl (stubborn_round @ rest) s = supervise ?cfg ?pl rest ?s4"
    using run f1(4) k2(5) k3(3) by (simp add: stubborn_round_def)
  ultimately show ?thesis by blast
qed

lemma stubborn_rounds_keep_running:
  "at_fresh_step s \<Longrightarrow>
   at_fresh_step (supervise default_config growing_planner
     (concat (replicate k stubborn_round)) s)"
proof (induction k arbitrary: s)
  case 0
  then show ?case by (simp add: at_fresh_step_def)
next
  case (Suc k)
  from stubborn_round_step [OF Suc.prems, of "concat (replicate k stubborn_round)"]
  obtain s' where "at_fresh_step s'"
    and "supervise default_config growing_planner
           (stubborn_round @ concat (replicate k stubborn_round)) s
         = supervise default_config growing_planner (concat (replicate k stubborn_round)) s'"
    by blast
  with Suc.IH [of s'] show ?case by simp
qed

text \<open>
  C3 as stated fails: with this Planner and this Reviewer the session is still running
  after any number of rounds, over plans whose step ids stay strictly increasing. Every
  step is replanned once and approved after it, and the tail the Planner returns holds
  a step that has not been replanned yet.
\<close>

theorem endless_replanning_counterexample:
  "\<forall>k. session_phase (supervise default_config growing_planner
          (concat (replicate k stubborn_round)) (new_session [write_step])) = RUNNING
      \<and> sorted_wrt (<) (map step_id (plan (supervise default_config growing_planner
          (concat (replicate k stubborn_round)) (new_session [write_step]))))"
proof
  fix k
  have "at_fresh_step (new_session [write_step])"
    by (simp add: at_fresh_step_def new_session_fields)
  then have "at_fresh_step (supervise default_config growing_planner
      (concat (replicate k stubborn_round)) (new_session [write_step]))"
    by (rule stubborn_rounds_keep_running)
  then show "session_phase (supervise default_config growing_planner
          (concat (replicate k stubborn_round)) (new_session [write_step])) = RUNNING
      \<and> sorted_wrt (<) (map step_id (plan (supervise default_config growing_planner
          (concat (replicate k stubborn_round)) (new_session [write_step]))))"
    by (simp add: at_fresh_step_def)
qed

subsection \<open>Bounded work\<close>

text \<open>
  A terminal state, and what a session has left of consecutive rejections: the retries
  of the current step, and as many again when no replanning has happened since the last
  approval.
\<close>

fun is_terminal :: "phase \<Rightarrow> bool" where
  "is_terminal RUNNING = False"
| "is_terminal DONE = True"
| "is_terminal (FAILED c) = True"

definition patience :: "config \<Rightarrow> session_state \<Rightarrow> nat" where
  "patience cfg s = (if after_replan s then 0 else round_width cfg) + budget cfg s"

lemma patience_bounds: "1 \<le> patience cfg s" "patience cfg s \<le> 2 * round_width cfg"
  using budget_bounds [of cfg s] by (simp_all add: patience_def)

lemma advance_replan_after:
  assumes "current_step_index s < length (plan s)" "\<not> approved ro"
    "\<not> Suc (retry_count s (step_id (plan s ! current_step_index s))) < max_retries cfg"
    "replan_enabled cfg" "step_id (plan s ! current_step_index s) \<notin> replanned s"
    "\<not> after_replan s"
  shows "after_replan (advance cfg pl (Reviewed c ro) s)"
  using assms by (simp add: advance_def review_def Let_def)

lemma rejection_decreases:
  assumes lt: "current_step_index s < length (plan s)" and no: "\<not> is_approval r"
    and run: "session_phase (advance cfg pl r s) = RUNNING"
  shows "patience cfg (advance cfg pl r s) < patience cfg s"
proof (cases r)
  case Unavailable
  with advance_unavailable [OF lt, of cfg pl] run show ?thesis by simp
next
  case (Reviewed c ro)
  with no have rej: "\<not> approved ro" by simp
  let ?s' = "advance cfg pl (Reviewed c ro) s"
  let ?st = "plan s ! current_step_index s"
  show ?thesis
  proof (cases "Suc (retry_count s (step_id ?st)) < max_retries cfg")
    case True
    note f = advance_retry_fields [OF lt rej True, of pl c]
      advance_retry_more [OF lt rej True, of pl c]
    from True have W: "round_width cfg = max_retries cfg" by (simp add: round_width_def)
    have "budget cfg ?s' < budget cfg s"
      using True W f by (simp add: budget_def)
    then show ?thesis using f Reviewed by (simp add: patience_def)
  next
    case exhausted: False
    show ?thesis
    proof (cases "\<not> replan_enabled cfg \<or> step_id ?st \<in> replanned s \<or> after_replan s")
      case True
      from advance_exhausted_fails(1) [OF lt rej exhausted True, of pl c] run Reviewed
      show ?thesis by simp
    next
      case can_replan: False
      then have e: "replan_enabled cfg" and n: "step_id ?st \<notin> replanned s"
        and a: "\<not> after_replan s" by simp_all
      have "after_replan ?s'"
        by (rule advance_replan_after [OF lt rej exhausted e n a])
      then have "patience cfg ?s' \<le> round_width cfg"
        using budget_bounds(2) [of cfg ?s'] by (simp add: patience_def)
      also have "\<dots> < patience cfg s"
        using a budget_bounds(1) [of cfg s] by (simp add: patience_def)
      finally show ?thesis using Reviewed by simp
    qed
  qed
qed

lemma rejections_terminate:
  "\<forall>r \<in> set rs. \<not> is_approval r \<Longrightarrow> patience cfg s \<le> length rs \<Longrightarrow>
   session_phase (supervise cfg pl rs s) \<noteq> RUNNING"
proof (induction rs arbitrary: s)
  case Nil
  with patience_bounds(1) [of cfg s] show ?case by simp
next
  case (Cons r rs)
  show ?case
  proof (cases "session_phase s = RUNNING")
    case False
    then show ?thesis by simp
  next
    case True
    show ?thesis
    proof (cases "session_phase (advance cfg pl r s) = RUNNING")
      case False
      with True show ?thesis by (simp add: supervise_terminal)
    next
      case run: True
      have lt: "current_step_index s < length (plan s)"
      proof (rule ccontr)
        assume "\<not> current_step_index s < length (plan s)"
        then have "advance cfg pl r s = finish s" by (simp add: advance_def)
        with run show False by (simp add: finish_def)
      qed
      from Cons.prems(1) have "\<not> is_approval r" by simp
      from rejection_decreases [OF lt this run] Cons.prems(2)
      have "patience cfg (advance cfg pl r s) \<le> length rs" by simp
      moreover from Cons.prems(1) have "\<forall>r \<in> set rs. \<not> is_approval r" by simp
      ultimately have "session_phase (supervise cfg pl rs (advance cfg pl r s)) \<noteq> RUNNING"
        by (rule Cons.IH [rotated])
      with True show ?thesis by simp
    qed
  qed
qed

lemma is_terminal_iff: "is_terminal ph \<longleftrightarrow> ph \<noteq> RUNNING"
  by (cases ph) simp_all

text \<open>
  C3, as the model has it. A step id has one replanning event at most. From any state,
  answers without an approval among them end the session once there are twice
  \<open>max (1, max_retries)\<close> of them: the retries of the step, its replanning, and the
  rejection run after it. And with a Planner whose replacement tails are bounded (at
  most \<open>K\<close> steps, ids in a finite set \<open>U\<close> that holds those of the plan) every session
  is DONE or FAILED after \<open>card U * K * w + N * w\<close> answers, \<open>w = max (1, max_retries)\<close>,
  whatever the Reviewer decides.
\<close>

theorem supervisor_bounded_work:
  "(\<forall>i. replannings i (history (supervise cfg pl rs (new_session p))) \<le> 1)
   \<and> ((\<forall>r \<in> set rs. \<not> is_approval r) \<and> 2 * round_width cfg \<le> length rs \<longrightarrow>
        is_terminal (session_phase (supervise cfg pl rs s)))
   \<and> (finite U \<and> planner_within U K pl \<and> step_id ` set p \<subseteq> U
        \<and> rounds_bound U K cfg p \<le> length rs \<longrightarrow>
        is_terminal (session_phase (supervise cfg pl rs (new_session p))))"
proof -
  have "replanned_once (supervise cfg pl rs (new_session p))"
    by (rule supervise_replanned_once [OF new_session_replanned_once])
  then have 1: "\<forall>i. replannings i (history (supervise cfg pl rs (new_session p))) \<le> 1"
    by (simp add: replanned_once_def)
  have 2: "is_terminal (session_phase (supervise cfg pl rs s))"
    if "\<forall>r \<in> set rs. \<not> is_approval r" "2 * round_width cfg \<le> length rs"
  proof -
    from that(2) patience_bounds(2) [of cfg s] have "patience cfg s \<le> length rs" by simp
    from rejections_terminate [OF that(1) this] show ?thesis
      by (simp add: is_terminal_iff)
  qed
  have 3: "is_terminal (session_phase (supervise cfg pl rs (new_session p)))"
    if "finite U" "planner_within U K pl" "step_id ` set p \<subseteq> U"
      "rounds_bound U K cfg p \<le> length rs"
  proof -
    have "tail_within U (new_session p)"
      using that(3) by (simp add: tail_within_def new_session_fields)
    moreover have "potential U K cfg (new_session p) \<le> length rs"
      using potential_new_session [of U K cfg p] that(4) by simp
    ultimately have "session_phase (supervise cfg pl rs (new_session p)) \<noteq> RUNNING"
      by (rule supervise_terminates [OF that(1,2)])
    then show ?thesis by (simp add: is_terminal_iff)
  qed
  from 1 2 3 show ?thesis by blast
qed

theorem supervisor_bounded_work_witness:
  "finite {1, 2 :: nat}
   \<and> planner_within {1, 2} 1 same_planner
   \<and> step_id ` set [write_step, draw_step] \<subseteq> {1, 2}
   \<and> rounds_bound {1, 2} 1 one_retry [write_step, draw_step] = 4
   \<and> 2 * round_width one_retry = 2
   \<and> session_phase (supervise one_retry same_planner
        [Reviewed outline_candidate (reject ''too long''),
         Reviewed outline_candidate (reject ''still too long''),
         Reviewed outline_candidate approve, Reviewed slides_candidate approve]
        (new_session [write_step, draw_step])) = FAILED (ReplanExhaustedError 1)
   \<and> session_phase (supervise one_retry growing_planner
        [Reviewed outline_candidate (reject ''too long''),
         Reviewed outline_candidate (reject ''still too long'')]
        (new_session [write_step, draw_step])) = FAILED (ReplanExhaustedError 1)
   \<and> replannings 1 (history (supervise one_retry same_planner
        [Reviewed outline_candidate (reject ''too long''),
         Reviewed outline_candidate (reject ''still too long''),
         Reviewed outline_candidate approve, Reviewed slides_candidate approve]
        (new_session [write_step, draw_step]))) = 1"
  using supervisor_bounded_work [of one_retry same_planner
      "[Reviewed outline_candidate (reject ''too long''),
        Reviewed outline_candidate (reject ''still too long''),
        Reviewed outline_candidate approve, Reviewed slides_candidate approve]"
      "[write_step, draw_step]" "new_session [write_step, draw_step]" "{1, 2}" 1]
    supervisor_bounded_work [of one_retry growing_planner
      "[Reviewed outline_candidate (reject ''too long''),
        Reviewed outline_candidate (reject ''still too long'')]"
      "[write_step, draw_step]" "new_session [write_step, draw_step]" "{}" 0]
  by (simp add: planner_within_def same_planner_def growing_planner_def rounds_bound_def
      round_width_def one_retry_def write_step_def draw_step_def new_session_def advance_def
      review_def commit_def finish_def fail_def Let_def reject_def approve_def)

end
